theory Spec2Isabelle
  imports Main "HOL-Library.Sublist"
begin

section \<open>Python strings\<close>

text \<open>
  A Python \<open>str\<close> is a sequence of Unicode code points, and \<open>len\<close>, slicing and
  \<open>find\<close> count code points. A string is therefore a list of code points
  (natural numbers); \<open>ascii\<close> reads an ASCII literal of the source.
\<close>

type_synonym pystr = "nat list"

definition ascii :: "string \<Rightarrow> pystr" where
  "ascii s = map of_char s"

text \<open>
  \<open>str.isspace\<close> of a single code point, as CPython decides it: the ASCII
  whitespace table and the Unicode white-space code points.
\<close>

definition isspace :: "nat \<Rightarrow> bool" where
  "isspace c \<longleftrightarrow>
     (9 \<le> c \<and> c \<le> 13) \<or> (28 \<le> c \<and> c \<le> 32) \<or> c = 133 \<or> c = 160 \<or> c = 5760 \<or>
     (8192 \<le> c \<and> c \<le> 8202) \<or> c = 8232 \<or> c = 8233 \<or> c = 8239 \<or> c = 8287 \<or>
     c = 12288"

text \<open>\<open>s.strip()\<close>: whitespace removed at both ends.\<close>

definition strip :: "pystr \<Rightarrow> pystr" where
  "strip s = rev (dropWhile isspace (rev (dropWhile isspace s)))"

text \<open>
  The index of the first occurrence of \<open>sub\<close> in \<open>s\<close>, scanning from the left.
\<close>

fun find_idx :: "pystr \<Rightarrow> pystr \<Rightarrow> nat option" where
  "find_idx sub [] = (if sub = [] then Some 0 else None)"
| "find_idx sub (c # cs) =
     (if prefix sub (c # cs) then Some 0 else map_option Suc (find_idx sub cs))"

text \<open>\<open>sub in s\<close> for two strings.\<close>

definition str_contains :: "pystr \<Rightarrow> pystr \<Rightarrow> bool" where
  "str_contains sub s \<longleftrightarrow> find_idx sub s \<noteq> None"

text \<open>
  \<open>s.find(sub, start)\<close>: the lowest index at or after \<open>start\<close> where \<open>sub\<close>
  occurs, \<open>-1\<close> when there is none. A negative \<open>start\<close> counts from the end.
\<close>

definition str_find :: "pystr \<Rightarrow> pystr \<Rightarrow> int \<Rightarrow> int" where
  "str_find s sub start =
     (let n = int (length s);
          st = (if start < 0 then max 0 (start + n) else start)
      in if st > n then - 1
         else (case find_idx sub (drop (nat st) s) of
                 None \<Rightarrow> - 1
               | Some i \<Rightarrow> st + int i))"

text \<open>\<open>s[a:b]\<close>: negative bounds count from the end, all bounds are clamped.\<close>

definition py_slice :: "pystr \<Rightarrow> int \<Rightarrow> int \<Rightarrow> pystr" where
  "py_slice s a b =
     (let n = int (length s);
          lo = (if a < 0 then max 0 (a + n) else min a n);
          hi = (if b < 0 then max 0 (b + n) else min b n)
      in take (nat (hi - lo)) (drop (nat lo) s))"

text \<open>
  \<open>s.replace(old, new)\<close>: every non-overlapping occurrence of \<open>old\<close>, found from
  the left, is replaced; an empty \<open>old\<close> matches before every character and at
  the end.
\<close>

fun str_replace :: "pystr \<Rightarrow> pystr \<Rightarrow> pystr \<Rightarrow> pystr" where
  "str_replace [] new s = new @ concat (map (\<lambda>c. c # new) s)"
| "str_replace (a # as) new [] = []"
| "str_replace (a # as) new (c # cs) =
     (if prefix (a # as) (c # cs)
      then new @ str_replace (a # as) new (drop (length as) cs)
      else c # str_replace (a # as) new cs)"

section \<open>Parsing the model's reply\<close>

record product_info =
  new_product :: pystr
  product_description :: pystr

definition sentinel :: pystr where
  "sentinel = ascii ''No new product found''"

definition name_anchor :: pystr where
  "name_anchor = ascii ''New Product Name:''"

definition desc_anchor :: pystr where
  "desc_anchor = ascii ''Product Description:''"

text \<open>
  The text of one field, as the source reads it twice: from just after the first
  occurrence of the anchor to the next line break, or to the end of the reply when
  no line break follows, stripped.
\<close>

definition field_after :: "pystr \<Rightarrow> pystr \<Rightarrow> pystr" where
  "field_after anchor llm_response =
     (let start = str_find llm_response anchor 0 + int (length anchor);
          stop0 = str_find llm_response [10] start;
          stop = (if stop0 = - 1 then int (length llm_response) else stop0)
      in strip (py_slice llm_response start stop))"

text \<open>The cap on a description: \<open>if d and len(d) > 180: d = d[:177] + "..."\<close>.\<close>

definition cap_description :: "pystr \<Rightarrow> pystr" where
  "cap_description d =
     (if d \<noteq> [] \<and> length d > 180 then py_slice d 0 177 @ ascii ''...'' else d)"

text \<open>
  Everything \<open>extract_product_info\<close> does with the reply once it has it: the
  sentinel check, the two anchors, the cap and the final test of the name.
\<close>

definition parse_response :: "pystr \<Rightarrow> product_info option" where
  "parse_response llm_response =
     (if str_contains sentinel llm_response then None
      else
        let product_name =
              (if str_contains name_anchor llm_response
               then Some (field_after name_anchor llm_response) else None);
            description =
              (if str_contains desc_anchor llm_response
               then Some (cap_description (field_after desc_anchor llm_response))
               else None)
        in (case product_name of
              None \<Rightarrow> None
            | Some n \<Rightarrow>
                if n = [] then None
                else Some \<lparr>new_product = n,
                           product_description =
                             (case description of None \<Rightarrow> [] | Some d \<Rightarrow> d)\<rparr>))"

section \<open>Exceptions, JSON values and the outside world\<close>

text \<open>
  The exceptions the program can meet: those the libraries raise (with their message)
  and the built-in ones that an operation on a value of the wrong shape raises.
  \<open>RequestsJSONDecodeError\<close> is \<open>requests.exceptions.JSONDecodeError\<close>, which
  \<open>response.json()\<close> raises on a malformed body: it is a \<open>RequestException\<close>
  and a \<open>json.JSONDecodeError\<close> at once. \<open>JSONDecodeError\<close> is one that the
  \<open>json\<close> module raises by itself and that is no \<open>RequestException\<close>.
\<close>

datatype exn =
    RequestException pystr
  | RequestsJSONDecodeError pystr
  | JSONDecodeError pystr
  | OtherError pystr
  | TypeError
  | KeyError
  | IndexError
  | AttributeError

text \<open>
  What \<open>response.json()\<close> returns. A \<open>dict\<close> is the list of its items in
  insertion order, each key once.
\<close>

datatype json =
    JNull
  | JBool bool
  | JInt int
  | JFloat int int
  | JStr pystr
  | JArr "json list"
  | JObj "(pystr \<times> json) list"

text \<open>Sequencing of steps that may raise: the first exception ends the block.\<close>

definition bind :: "exn + 'a \<Rightarrow> ('a \<Rightarrow> exn + 'b) \<Rightarrow> exn + 'b" where
  "bind m f = (case m of Inl e \<Rightarrow> Inl e | Inr v \<Rightarrow> f v)"

fun map_exn :: "('a \<Rightarrow> exn + 'b) \<Rightarrow> 'a list \<Rightarrow> exn + 'b list" where
  "map_exn f [] = Inr []"
| "map_exn f (x # xs) = bind (f x) (\<lambda>y. bind (map_exn f xs) (\<lambda>ys. Inr (y # ys)))"

text \<open>\<open>k in x\<close> for a string \<open>k\<close>.\<close>

fun py_in :: "pystr \<Rightarrow> json \<Rightarrow> exn + bool" where
  "py_in k (JObj kvs) = Inr (k \<in> set (map fst kvs))"
| "py_in k (JArr xs) = Inr (JStr k \<in> set xs)"
| "py_in k (JStr s) = Inr (str_contains k s)"
| "py_in k JNull = Inl TypeError"
| "py_in k (JBool b) = Inl TypeError"
| "py_in k (JInt i) = Inl TypeError"
| "py_in k (JFloat m e) = Inl TypeError"

text \<open>\<open>x[k]\<close> for a string \<open>k\<close>.\<close>

fun getitem_str :: "json \<Rightarrow> pystr \<Rightarrow> exn + json" where
  "getitem_str (JObj kvs) k = (case map_of kvs k of None \<Rightarrow> Inl KeyError | Some v \<Rightarrow> Inr v)"
| "getitem_str (JArr xs) k = Inl TypeError"
| "getitem_str (JStr s) k = Inl TypeError"
| "getitem_str JNull k = Inl TypeError"
| "getitem_str (JBool b) k = Inl TypeError"
| "getitem_str (JInt i) k = Inl TypeError"
| "getitem_str (JFloat m e) k = Inl TypeError"

text \<open>\<open>x.get(k, default)\<close>: only a \<open>dict\<close> has the method.\<close>

fun py_get :: "json \<Rightarrow> pystr \<Rightarrow> json \<Rightarrow> exn + json" where
  "py_get (JObj kvs) k d = Inr (case map_of kvs k of None \<Rightarrow> d | Some v \<Rightarrow> v)"
| "py_get (JArr xs) k d = Inl AttributeError"
| "py_get (JStr s) k d = Inl AttributeError"
| "py_get JNull k d = Inl AttributeError"
| "py_get (JBool b) k d = Inl AttributeError"
| "py_get (JInt i) k d = Inl AttributeError"
| "py_get (JFloat m e) k d = Inl AttributeError"

text \<open>
  The items \<open>enumerate(x)\<close> yields: the elements of a list, the characters of a
  string, the keys of a \<open>dict\<close>.
\<close>

fun py_iter :: "json \<Rightarrow> exn + json list" where
  "py_iter (JArr xs) = Inr xs"
| "py_iter (JStr s) = Inr (map (\<lambda>c. JStr [c]) s)"
| "py_iter (JObj kvs) = Inr (map (\<lambda>kv. JStr (fst kv)) kvs)"
| "py_iter JNull = Inl TypeError"
| "py_iter (JBool b) = Inl TypeError"
| "py_iter (JInt i) = Inl TypeError"
| "py_iter (JFloat m e) = Inl TypeError"

text \<open>\<open>x[i]\<close> for an index \<open>i \<ge> 0\<close>.\<close>

fun getitem_int :: "json \<Rightarrow> nat \<Rightarrow> exn + json" where
  "getitem_int (JArr xs) i = (if i < length xs then Inr (xs ! i) else Inl IndexError)"
| "getitem_int (JStr s) i = (if i < length s then Inr (JStr [s ! i]) else Inl IndexError)"
| "getitem_int (JObj kvs) i = Inl KeyError"
| "getitem_int JNull i = Inl TypeError"
| "getitem_int (JBool b) i = Inl TypeError"
| "getitem_int (JInt n) i = Inl TypeError"
| "getitem_int (JFloat m e) i = Inl TypeError"

text \<open>
  The world outside the program, as the responses it gives: an HTTP read that is
  parsed as JSON (\<open>requests.get\<close>, \<open>raise_for_status\<close>, \<open>json()\<close>), an HTTP read
  of a text, the company list as the data frame holds it after the conversion of
  its identifiers, the model's reply to a prompt
  (\<open>ollama.generate(...)['response']\<close>), and the text that the markup parser
  gives for a document (\<open>BeautifulSoup(...).get_text(separator=' ', strip=True)\<close>).
  Each is a function of what the program sends: within one run the same request has
  the same outcome.
\<close>

record company =
  row_cik_str :: pystr
  row_ticker :: pystr
  row_title :: pystr

record world =
  http_get_json :: "pystr \<Rightarrow> exn + json"
  http_get_text :: "pystr \<Rightarrow> exn + pystr"
  company_tickers :: "exn + company list"
  ollama_generate :: "pystr \<Rightarrow> exn + pystr"
  soup_get_text :: "pystr \<Rightarrow> pystr"

text \<open>What the program does to the world, in the order it does it.\<close>

datatype message =
    ErrorFetchingFilings pystr exn
  | ErrorFetchingContent pystr exn
  | ErrorExtracting exn
  | Processing pystr pystr pystr
  | Analyzing json
  | FoundNewProduct pystr
  | AnalysisComplete nat
  | RequestFailed exn
  | JsonDecodingFailed exn
  | UnexpectedError exn

record result_row =
  col_company_name :: pystr
  col_stock_name :: pystr
  col_filing_time :: json
  col_new_product :: pystr
  col_product_description :: pystr

datatype event =
    HttpGet pystr
  | ModelCall pystr
  | Print message
  | Sleep nat
  | ToCsv "result_row list"

section \<open>The functions of the program\<close>

subsection \<open>extract_section\<close>

definition extract_section :: "world \<Rightarrow> pystr \<Rightarrow> pystr" where
  "extract_section w html_content =
     (let html_text = soup_get_text w html_content
      in str_replace [32, 9744, 32] [32]
           (str_replace [8195] [32]
             (str_replace [8194] [32]
               (str_replace [8201] [32]
                 (str_replace [160] [32] html_text)))))"

subsection \<open>get_8k_filings\<close>

definition form_8k :: pystr where
  "form_8k = ascii ''8-K''"

text \<open>The body of the \<open>try\<close> block, from the parsed response on.\<close>

definition filings_of_response :: "json \<Rightarrow> exn + (json \<times> json) list" where
  "filings_of_response filings_data =
     bind (py_in (ascii ''filings'') filings_data) (\<lambda>has_filings.
       if \<not> has_filings then Inr []
       else
         bind (getitem_str filings_data (ascii ''filings'')) (\<lambda>filings.
         bind (py_in (ascii ''recent'') filings) (\<lambda>has_recent.
           if \<not> has_recent then Inr []
           else
             bind (getitem_str filings (ascii ''recent'')) (\<lambda>recent_filings.
             bind (py_get recent_filings (ascii ''form'') (JArr [])) (\<lambda>forms.
             bind (py_iter forms) (\<lambda>items.
               let form_indices =
                     [i. (i, form) \<leftarrow> List.enumerate 0 items, form = JStr form_8k]
               in if form_indices = [] then Inr []
                  else
                    bind (map_exn (\<lambda>i.
                            bind (py_get recent_filings (ascii ''filingDate'') (JArr []))
                              (\<lambda>ds. getitem_int ds i)) form_indices) (\<lambda>filing_dates.
                    bind (map_exn (\<lambda>i.
                            bind (py_get recent_filings (ascii ''accessionNumber'') (JArr []))
                              (\<lambda>as. getitem_int as i)) form_indices) (\<lambda>accession_numbers.
                    Inr (zip filing_dates accession_numbers)))))))))"

definition search_url :: "pystr \<Rightarrow> pystr" where
  "search_url cik = ascii ''https://data.sec.gov/submissions/CIK'' @ cik @ ascii ''.json''"

definition get_8k_filings :: "world \<Rightarrow> pystr \<Rightarrow> (json \<times> json) list \<times> event list" where
  "get_8k_filings w cik =
     (case bind (http_get_json w (search_url cik)) filings_of_response of
        Inr filings \<Rightarrow> (filings, [HttpGet (search_url cik)])
      | Inl e \<Rightarrow> ([], [HttpGet (search_url cik), Print (ErrorFetchingFilings cik e)]))"

subsection \<open>get_filing_content\<close>

text \<open>
  \<open>re.search(r'<TEXT>(.*?)</TEXT>', content, re.DOTALL)\<close>: the text between the
  first opening tag and the first closing tag after it, when both are there.
\<close>

definition text_segment :: "pystr \<Rightarrow> pystr option" where
  "text_segment content =
     (case find_idx (ascii ''<TEXT>'') content of
        None \<Rightarrow> None
      | Some i \<Rightarrow>
          (case find_idx (ascii ''</TEXT>'') (drop (i + 6) content) of
             None \<Rightarrow> None
           | Some j \<Rightarrow> Some (take j (drop (i + 6) content))))"

definition filing_url :: "pystr \<Rightarrow> pystr \<Rightarrow> pystr" where
  "filing_url accession_number cik =
     (let accession_number_clean = str_replace (ascii ''-'') [] accession_number
      in ascii ''https://www.sec.gov/Archives/edgar/data/'' @ cik @ ascii ''/'' @
         accession_number_clean @ ascii ''/'' @ accession_number @ ascii ''.txt'')"

text \<open>
  The accession number comes from the index response and is any JSON value. The
  call of \<open>replace\<close> on it stands before the \<open>try\<close> block: on a value that is
  not a string it raises, and the exception leaves the function.
\<close>

fun get_filing_content :: "world \<Rightarrow> json \<Rightarrow> pystr \<Rightarrow> exn + (pystr option \<times> event list)" where
  "get_filing_content w (JStr accession_number) cik =
     (case http_get_text w (filing_url accession_number cik) of
        Inl e \<Rightarrow>
          Inr (None, [HttpGet (filing_url accession_number cik),
                      Print (ErrorFetchingContent accession_number e)])
      | Inr content \<Rightarrow>
          Inr (Some (case text_segment content of
                       Some body \<Rightarrow> extract_section w body
                     | None \<Rightarrow> extract_section w content),
               [HttpGet (filing_url accession_number cik)]))"
| "get_filing_content w JNull cik = Inl AttributeError"
| "get_filing_content w (JBool b) cik = Inl AttributeError"
| "get_filing_content w (JInt i) cik = Inl AttributeError"
| "get_filing_content w (JFloat m e) cik = Inl AttributeError"
| "get_filing_content w (JArr xs) cik = Inl AttributeError"
| "get_filing_content w (JObj kvs) cik = Inl AttributeError"

subsection \<open>extract_product_info\<close>

definition build_prompt :: "pystr \<Rightarrow> pystr \<Rightarrow> pystr \<Rightarrow> pystr" where
  "build_prompt filing_content company_name ticker =
     ascii '' '' @ [10] @
     ascii ''    Analyze this SEC 8-K filing and extract information about any new product releases or announcements. '' @ [10] @
     [10] @
     ascii ''    Company: '' @ company_name @ ascii '' '' @ [10] @
     ascii ''    Ticker: '' @ ticker @ ascii '' '' @ [10] @
     [10] @
     ascii ''    Task: Extract the following information in a structured format: '' @ [10] @
     ascii ''    1. New Product Name: [Name of the new product] '' @ [10] @
     ascii ''    2. Product Description: [Brief description of the product, less than 180 characters] '' @ [10] @
     [10] @
     ascii ''    If no new product is mentioned in the filing, respond with '' @ [34] @
     ascii ''No new product found'' @ [34] @ ascii ''. '' @ [10] @
     [10] @
     ascii ''    Filing content: '' @ [10] @
     ascii ''    '' @ filing_content @ ascii ''  # Limit content length '' @ [10] @
     ascii ''    ''"

text \<open>
  The result and the events of one call. An absent or empty filing text returns at
  once; an exception of the model call is printed and gives no result.
\<close>

definition extract_product_info ::
  "world \<Rightarrow> pystr option \<Rightarrow> pystr \<Rightarrow> pystr \<Rightarrow> product_info option \<times> event list" where
  "extract_product_info w filing_content company_name ticker =
     (case filing_content of
        None \<Rightarrow> (None, [])
      | Some text \<Rightarrow>
          if text = [] then (None, [])
          else
            (let prompt = build_prompt text company_name ticker
             in case ollama_generate w prompt of
                  Inl e \<Rightarrow> (None, [ModelCall prompt, Print (ErrorExtracting e)])
                | Inr llm_response \<Rightarrow> (parse_response llm_response, [ModelCall prompt])))"

subsection \<open>The driver\<close>

definition new_row :: "company \<Rightarrow> json \<Rightarrow> product_info \<Rightarrow> result_row" where
  "new_row c filing_date p =
     \<lparr>col_company_name = row_title c, col_stock_name = row_ticker c, col_filing_time = filing_date,
      col_new_product = new_product p, col_product_description = product_description p\<rparr>"

text \<open>
  The inner loop over the selected filings of one company. It returns the exception
  that ended it, if any, the result table and the events.
\<close>

fun process_filings ::
  "world \<Rightarrow> company \<Rightarrow> (json \<times> json) list \<Rightarrow> result_row list \<Rightarrow>
   exn option \<times> result_row list \<times> event list" where
  "process_filings w c [] results_df = (None, results_df, [])"
| "process_filings w c ((filing_date, accession_number) # rest) results_df =
     (case get_filing_content w accession_number (row_cik_str c) of
        Inl e \<Rightarrow> (Some e, results_df, [Print (Analyzing filing_date)])
      | Inr (content, ev1) \<Rightarrow>
          (case extract_product_info w content (row_title c) (row_ticker c) of
             (None, ev2) \<Rightarrow>
               (case process_filings w c rest results_df of
                  (r, df, ev3) \<Rightarrow>
                    (r, df, Print (Analyzing filing_date) # ev1 @ ev2 @ Sleep 1 # ev3))
           | (Some p, ev2) \<Rightarrow>
               (case process_filings w c rest (results_df @ [new_row c filing_date p]) of
                  (r, df, ev3) \<Rightarrow>
                    (r, df, Print (Analyzing filing_date) # ev1 @ ev2 @
                            Print (FoundNewProduct (new_product p)) # Sleep 1 # ev3))))"

text \<open>The outer loop over the companies: at most the first five filings of each.\<close>

fun process_companies ::
  "world \<Rightarrow> company list \<Rightarrow> result_row list \<Rightarrow> exn option \<times> result_row list \<times> event list" where
  "process_companies w [] results_df = (None, results_df, [])"
| "process_companies w (c # cs) results_df =
     (case get_8k_filings w (row_cik_str c) of
        (filings, ev1) \<Rightarrow>
          (case process_filings w c (take 5 filings) results_df of
             (Some e, df, ev2) \<Rightarrow>
               (Some e, df, Print (Processing (row_title c) (row_cik_str c) (row_ticker c)) # ev1 @ ev2)
           | (None, df, ev2) \<Rightarrow>
               (case process_companies w cs df of
                  (r, df', ev3) \<Rightarrow>
                    (r, df', Print (Processing (row_title c) (row_cik_str c) (row_ticker c)) # ev1 @ ev2 @ ev3))))"

text \<open>
  The script: the table starts empty, the first hundred companies are processed,
  and the table is written when no exception ended the run. The three \<open>except\<close>
  clauses are tried in their order: the first takes every \<open>RequestException\<close>, the
  one of \<open>response.json()\<close> included, the second a \<open>json.JSONDecodeError\<close> that
  is none, the third every other exception.
\<close>

definition top_level_message :: "exn \<Rightarrow> message" where
  "top_level_message e =
     (case e of
        RequestException m \<Rightarrow> RequestFailed e
      | RequestsJSONDecodeError m \<Rightarrow> RequestFailed e
      | JSONDecodeError m \<Rightarrow> JsonDecodingFailed e
      | _ \<Rightarrow> UnexpectedError e)"

definition main :: "world \<Rightarrow> result_row list \<times> event list" where
  "main w =
     (case company_tickers w of
        Inl e \<Rightarrow> ([], [Print (top_level_message e)])
      | Inr company_data \<Rightarrow>
          (case process_companies w (take 100 company_data) [] of
             (Some e, df, ev) \<Rightarrow> (df, ev @ [Print (top_level_message e)])
           | (None, df, ev) \<Rightarrow> (df, ev @ [ToCsv df, Print (AnalysisComplete (length df))])))"

section \<open>Observations on a run\<close>

text \<open>
  What a list of events shows of the filings that were processed: the filing dates
  announced by "Analyzing filing from ...", the addresses that were read, the prompts
  that were submitted to the model, and the pauses.
\<close>

definition analyzed :: "event list \<Rightarrow> json list" where
  "analyzed evs = [filing_date. Print (Analyzing filing_date) \<leftarrow> evs]"

definition fetched :: "event list \<Rightarrow> pystr list" where
  "fetched evs = [url. HttpGet url \<leftarrow> evs]"

definition prompted :: "event list \<Rightarrow> pystr list" where
  "prompted evs = [prompt. ModelCall prompt \<leftarrow> evs]"

definition paused :: "event list \<Rightarrow> nat list" where
  "paused evs = [seconds. Sleep seconds \<leftarrow> evs]"

text \<open>
  The prompt that the processing of one filing submits, from the parts of the
  program: the document is read, its text segment (or all of it) is normalized, and
  a non-empty text is put into the prompt of the company. A failed read and an empty
  text give no prompt.
\<close>

definition document_prompt :: "world \<Rightarrow> company \<Rightarrow> pystr \<Rightarrow> pystr list" where
  "document_prompt w c accession_number =
     (case http_get_text w (filing_url accession_number (row_cik_str c)) of
        Inl e \<Rightarrow> []
      | Inr content \<Rightarrow>
          (let text = extract_section w
                        (case text_segment content of Some body \<Rightarrow> body | None \<Rightarrow> content)
           in if text = [] then [] else [build_prompt text (row_title c) (row_ticker c)]))"

text \<open>
  The (company, filing) pairs of a run in discovery order: the companies in their
  order, and of each the first five filings that its index fetch returns. A pair is
  readable when its accession number is a string; on any other value the call of
  \<open>replace\<close> in \<open>get_filing_content\<close> raises outside every \<open>try\<close> block and
  ends the run. The extraction for a pair is what \<open>extract_product_info\<close>
  returns for the content of its filing.
\<close>

definition selected :: "world \<Rightarrow> company list \<Rightarrow> (company \<times> json \<times> json) list" where
  "selected w cs =
     concat (map (\<lambda>c. map (\<lambda>filing. (c, filing))
                          (take 5 (fst (get_8k_filings w (row_cik_str c))))) cs)"

definition readable :: "company \<times> json \<times> json \<Rightarrow> bool" where
  "readable = (\<lambda>(c, filing_date, accession_number).
     case accession_number of JStr s \<Rightarrow> True | _ \<Rightarrow> False)"

definition extraction_for :: "world \<Rightarrow> company \<times> json \<times> json \<Rightarrow> product_info option" where
  "extraction_for w = (\<lambda>(c, filing_date, accession_number).
     case get_filing_content w accession_number (row_cik_str c) of
       Inl e \<Rightarrow> None
     | Inr (content, ev) \<Rightarrow> fst (extract_product_info w content (row_title c) (row_ticker c)))"

definition rows_for :: "world \<Rightarrow> company \<times> json \<times> json \<Rightarrow> result_row list" where
  "rows_for w = (\<lambda>(c, filing_date, accession_number).
     case extraction_for w (c, filing_date, accession_number) of
       None \<Rightarrow> []
     | Some p \<Rightarrow> [new_row c filing_date p])"

text \<open>
  The four replacements of a single whitespace glyph by a space, which
  \<open>extract_section\<close> applies one after the other, seen as one map on characters.
\<close>

definition to_space :: "nat \<Rightarrow> nat" where
  "to_space c = (if c = 160 \<or> c = 8201 \<or> c = 8194 \<or> c = 8195 then 32 else c)"

section \<open>Concrete worlds and replies\<close>

text \<open>
  A world in which the model answers every prompt with the same reply, every index
  request fails, every filing is empty, and the documents hold no markup: for such
  a document the markup parser returns the one text node, stripped.
\<close>

definition reply_world :: "pystr \<Rightarrow> world" where
  "reply_world reply =
     \<lparr>http_get_json = (\<lambda>url. Inl (RequestException (ascii ''connection refused''))),
      http_get_text = (\<lambda>url. Inr []),
      company_tickers = Inr [],
      ollama_generate = (\<lambda>prompt. Inr reply),
      soup_get_text = strip\<rparr>"

text \<open>The reply of the end-to-end scenario: both anchors and the sentinel phrase.\<close>

definition reply_with_sentinel :: pystr where
  "reply_with_sentinel =
     ascii ''New Product Name: Vision Pro 2'' @ [10] @
     ascii ''Product Description: Next-gen headset'' @ [10] @
     ascii ''No new product found''"

definition reply_description_only :: pystr where
  "reply_description_only = ascii ''Product Description: Widget X''"

definition reply_name_only :: pystr where
  "reply_name_only = ascii ''1. New Product Name: Vision Pro 2'' @ [10] @ ascii ''Product Description:   ''"

text \<open>A reply whose description has 181 characters.\<close>

definition long_description :: pystr where
  "long_description =
     ascii ''A wall-mounted home battery that stores rooftop solar power during the day and feeds it back to the household at night, with a companion app to monitor usage, cost and grid outages.''"

definition reply_long_description :: pystr where
  "reply_long_description =
     ascii ''New Product Name: Widget X'' @ [10] @
     ascii ''Product Description: '' @ long_description @ [10]"

text \<open>
  An index response of the expected shape around three parallel arrays, and a world
  that gives one fixed outcome to every index request and one fixed reply to every
  prompt; every filing document is the same short text.
\<close>

definition index_json :: "json list \<Rightarrow> json list \<Rightarrow> json list \<Rightarrow> json" where
  "index_json forms dates accs =
     JObj [(ascii ''cik'', JStr (ascii ''320193'')),
           (ascii ''filings'',
            JObj [(ascii ''recent'',
                   JObj [(ascii ''accessionNumber'', JArr accs),
                         (ascii ''filingDate'', JArr dates),
                         (ascii ''form'', JArr forms)]),
                  (ascii ''files'', JArr [])])]"

definition apple :: company where
  "apple = \<lparr>row_cik_str = ascii ''0000320193'', row_ticker = ascii ''AAPL'',
            row_title = ascii ''Apple Inc.''\<rparr>"

definition fixed_world :: "exn + json \<Rightarrow> pystr \<Rightarrow> world" where
  "fixed_world index reply =
     \<lparr>http_get_json = (\<lambda>url. index),
      http_get_text = (\<lambda>url. Inr (ascii ''<TEXT>Widget X launch</TEXT>'')),
      company_tickers = Inr [apple],
      ollama_generate = (\<lambda>prompt. Inr reply),
      soup_get_text = strip\<rparr>"

definition three_forms :: "json list" where
  "three_forms = [JStr (ascii ''8-K''), JStr (ascii ''10-Q''), JStr (ascii ''8-K'')]"

definition three_dates :: "json list" where
  "three_dates = [JStr (ascii ''2024-05-02''), JStr (ascii ''2024-05-01''),
                  JStr (ascii ''2024-02-01'')]"

definition three_accessions :: "json list" where
  "three_accessions = [JStr (ascii ''0000320193-24-000069''), JStr (ascii ''0000320193-24-000064''),
                       JStr (ascii ''0000320193-24-000005'')]"

text \<open>
  An index with eight entries, seven of them of form "8-K"; the accession number of
  the last is a number, not a string.
\<close>

definition eight_forms :: "json list" where
  "eight_forms = [JStr (ascii ''8-K''), JStr (ascii ''8-K''), JStr (ascii ''10-Q''),
                  JStr (ascii ''8-K''), JStr (ascii ''8-K''), JStr (ascii ''8-K''),
                  JStr (ascii ''8-K''), JStr (ascii ''8-K'')]"

definition eight_dates :: "json list" where
  "eight_dates = [JStr (ascii ''2024-08-01''), JStr (ascii ''2024-07-01''),
                  JStr (ascii ''2024-06-15''), JStr (ascii ''2024-06-01''),
                  JStr (ascii ''2024-05-01''), JStr (ascii ''2024-04-01''),
                  JStr (ascii ''2024-03-01''), JStr (ascii ''2024-02-01'')]"

definition eight_accessions :: "json list" where
  "eight_accessions = [JStr (ascii ''0000320193-24-000008''), JStr (ascii ''0000320193-24-000007''),
                       JStr (ascii ''0000320193-24-000006''), JStr (ascii ''0000320193-24-000005''),
                       JStr (ascii ''0000320193-24-000004''), JStr (ascii ''0000320193-24-000003''),
                       JStr (ascii ''0000320193-24-000002''), JInt 2400000001]"

section \<open>Properties of the string operations\<close>

lemma str_contains_Nil: "str_contains sub [] \<longleftrightarrow> sub = []"
  by (simp add: str_contains_def)

lemma str_contains_Cons:
  "str_contains sub (c # cs) \<longleftrightarrow> prefix sub (c # cs) \<or> str_contains sub cs"
  by (simp add: str_contains_def)

lemma str_contains_iff: "str_contains sub s \<longleftrightarrow> (\<exists>pre post. s = pre @ sub @ post)"
proof (induction s)
  case Nil
  show ?case by (auto simp: str_contains_Nil)
next
  case (Cons c cs)
  show ?case
  proof
    assume "str_contains sub (c # cs)"
    then consider "prefix sub (c # cs)" | "str_contains sub cs"
      by (auto simp: str_contains_Cons)
    then show "\<exists>pre post. c # cs = pre @ sub @ post"
    proof cases
      case 1
      then obtain post where "c # cs = sub @ post" by (auto simp: prefix_def)
      then have "c # cs = [] @ sub @ post" by simp
      then show ?thesis by blast
    next
      case 2
      with Cons.IH obtain pre post where "cs = pre @ sub @ post" by blast
      then have "c # cs = (c # pre) @ sub @ post" by simp
      then show ?thesis by blast
    qed
  next
    assume "\<exists>pre post. c # cs = pre @ sub @ post"
    then obtain pre post where eq: "c # cs = pre @ sub @ post" by blast
    show "str_contains sub (c # cs)"
    proof (cases pre)
      case Nil
      with eq have "prefix sub (c # cs)" by (simp add: prefix_def)
      then show ?thesis by (simp add: str_contains_Cons)
    next
      case (Cons p ps)
      with eq have "cs = ps @ sub @ post" by simp
      with Cons.IH have "str_contains sub cs" by blast
      then show ?thesis by (simp add: str_contains_Cons)
    qed
  qed
qed

lemma find_idx_Some_bound: "find_idx sub s = Some i \<Longrightarrow> i + length sub \<le> length s"
proof (induction s arbitrary: i)
  case Nil
  then show ?case by (simp split: if_splits)
next
  case (Cons c cs)
  show ?case
  proof (cases "prefix sub (c # cs)")
    case True
    with Cons.prems have "i = 0" by simp
    with True show ?thesis by (auto dest: prefix_length_le)
  next
    case False
    with Cons.prems obtain j where "find_idx sub cs = Some j" "i = Suc j" by auto
    with Cons.IH show ?thesis by fastforce
  qed
qed

lemma find_idx_Some_prefix: "find_idx sub s = Some i \<Longrightarrow> prefix sub (drop i s)"
proof (induction s arbitrary: i)
  case Nil
  then show ?case by (simp split: if_splits)
next
  case (Cons c cs)
  show ?case
  proof (cases "prefix sub (c # cs)")
    case True
    with Cons.prems show ?thesis by simp
  next
    case False
    with Cons.prems obtain j where "find_idx sub cs = Some j" "i = Suc j" by auto
    with Cons.IH show ?thesis by simp
  qed
qed

lemma find_idx_Some_first: "find_idx sub s = Some i \<Longrightarrow> j < i \<Longrightarrow> \<not> prefix sub (drop j s)"
proof (induction s arbitrary: i j)
  case Nil
  then show ?case by (simp split: if_splits)
next
  case (Cons c cs)
  show ?case
  proof (cases "prefix sub (c # cs)")
    case True
    with Cons.prems show ?thesis by simp
  next
    case False
    with Cons.prems obtain k where k: "find_idx sub cs = Some k" "i = Suc k" by auto
    show ?thesis
    proof (cases j)
      case 0
      with False show ?thesis by simp
    next
      case (Suc j')
      with k Cons.prems have "j' < k" by simp
      with Cons.IH k have "\<not> prefix sub (drop j' cs)" by blast
      with Suc show ?thesis by simp
    qed
  qed
qed

lemma find_idx_single:
  "find_idx [c] s = (if c \<in> set s then Some (length (takeWhile (\<lambda>x. x \<noteq> c) s)) else None)"
  by (induction s) auto

lemma py_slice_take: "py_slice s 0 (int n) = take n s"
  by (simp add: py_slice_def Let_def min_def)

lemma str_find_from:
  "n \<le> length s \<Longrightarrow> str_find s sub (int n) =
     (case find_idx sub (drop n s) of None \<Rightarrow> - 1 | Some i \<Rightarrow> int (n + i))"
  by (simp add: str_find_def Let_def split: option.splits)

lemma py_slice_nat:
  "a \<le> b \<Longrightarrow> py_slice s (int a) (int b) = take (b - a) (drop a s)"
proof -
  assume ab: "a \<le> b"
  then have n: "nat (int b - int a) = b - a" by simp
  have m: "nat (int (length s) - int a) = length s - a" by simp
  show ?thesis
    using ab by (auto simp: py_slice_def Let_def min_def n m)
qed

lemma takeWhile_line: "(c::nat) \<notin> set line \<Longrightarrow> takeWhile (\<lambda>x. x \<noteq> c) (line @ c # xs) = line"
  by (induction line) auto

lemma field_after_line:
  assumes first: "find_idx anchor r = Some i"
      and line: "drop (i + length anchor) r = line @ rest"
      and nl: "10 \<notin> set line"
      and rest: "rest = [] \<or> hd rest = 10"
  shows "field_after anchor r = strip line"
proof -
  let ?start = "i + length anchor"
  have bound: "?start \<le> length r" using first by (rule find_idx_Some_bound)
  have f0: "str_find r anchor 0 = int i"
    using first by (simp add: str_find_def)
  have start: "str_find r anchor 0 + int (length anchor) = int ?start"
    using f0 by simp
  have len: "length r = ?start + length line + length rest"
  proof -
    have "length (drop ?start r) = length line + length rest" using line by simp
    with bound show ?thesis by simp
  qed
  show ?thesis
  proof (cases rest)
    case Nil
    with nl line have "find_idx [10] (drop ?start r) = None"
      by (simp add: find_idx_single)
    with bound have "str_find r [10] (int ?start) = - 1"
      using str_find_from [of ?start r "[10]"] by simp
    moreover have "py_slice r (int ?start) (int (length r)) = line"
    proof -
      have "py_slice r (int ?start) (int (length r)) = take (length r - ?start) (drop ?start r)"
        using bound by (rule py_slice_nat)
      also have "\<dots> = line" unfolding line using Nil len by simp
      finally show ?thesis .
    qed
    ultimately show ?thesis
      unfolding field_after_def start by (simp add: Let_def)
  next
    case (Cons x xs)
    with rest have x: "x = 10" by simp
    have tw: "takeWhile (\<lambda>c. c \<noteq> 10) (line @ 10 # xs) = line"
      using nl by (rule takeWhile_line)
    have "find_idx [10] (drop ?start r) = Some (length line)"
      using line Cons x tw by (simp add: find_idx_single)
    with bound have stop: "str_find r [10] (int ?start) = int (?start + length line)"
      using str_find_from [of ?start r "[10]"] by simp
    have "py_slice r (int ?start) (int (?start + length line)) = take (length line) (drop ?start r)"
      using py_slice_nat [of ?start "?start + length line" r] by simp
    also have "\<dots> = line" using line by simp
    finally have "py_slice r (int ?start) (int (?start + length line)) = line" .
    with stop show ?thesis
      unfolding field_after_def start by (simp add: Let_def)
  qed
qed

lemma cap_description_Nil: "cap_description [] = []"
  by (simp add: cap_description_def)

lemma extract_reply:
  "text \<noteq> [] \<Longrightarrow> ollama_generate w (build_prompt text company_name ticker) = Inr r \<Longrightarrow>
   fst (extract_product_info w (Some text) company_name ticker) = parse_response r"
  by (simp add: extract_product_info_def Let_def)

lemmas literals = ascii_def sentinel_def name_anchor_def desc_anchor_def

section \<open>The product extractor\<close>

text \<open>
  Claim C1. A reply that holds the phrase "No new product found" anywhere, whatever
  stands before and after it (the two anchors included), gives an absent result.
\<close>

theorem sentinel_precedence:
  assumes "ollama_generate w (build_prompt text company_name ticker) = Inr (before @ sentinel @ after)"
  shows "fst (extract_product_info w (Some text) company_name ticker) = None"
proof (cases "text = []")
  case True
  then show ?thesis by (simp add: extract_product_info_def)
next
  case False
  have "str_contains sentinel (before @ sentinel @ after)"
    unfolding str_contains_iff by blast
  then have "parse_response (before @ sentinel @ after) = None"
    by (simp add: parse_response_def)
  with False assms show ?thesis by (simp add: extract_reply)
qed

theorem sentinel_precedence_witness:
  "fst (extract_product_info (reply_world reply_with_sentinel) (Some (ascii ''filing text''))
         (ascii ''Apple Inc.'') (ascii ''AAPL'')) = None"
proof -
  have "ollama_generate (reply_world reply_with_sentinel)
          (build_prompt (ascii ''filing text'') (ascii ''Apple Inc.'') (ascii ''AAPL'')) =
        Inr ((ascii ''New Product Name: Vision Pro 2'' @ [10] @
              ascii ''Product Description: Next-gen headset'' @ [10]) @ sentinel @ [])"
    by (simp add: reply_world_def reply_with_sentinel_def sentinel_def)
  then show ?thesis by (rule sentinel_precedence)
qed

text \<open>
  Claim C2. When no product name is extracted, because the anchor "New Product Name:"
  is not in the reply or because the text after it up to the line break strips to
  the empty string, the result is absent, whatever the reply holds otherwise (a
  description included).
\<close>

theorem missing_name_guard:
  assumes "ollama_generate w (build_prompt text company_name ticker) = Inr r"
      and "\<not> str_contains name_anchor r \<or> field_after name_anchor r = []"
  shows "fst (extract_product_info w (Some text) company_name ticker) = None"
proof (cases "text = []")
  case True
  then show ?thesis by (simp add: extract_product_info_def)
next
  case False
  from assms(2) have "parse_response r = None"
    by (auto simp: parse_response_def Let_def)
  with False assms(1) show ?thesis by (simp add: extract_reply)
qed

theorem missing_name_guard_witness:
  "\<not> str_contains name_anchor reply_description_only \<and>
   str_contains desc_anchor reply_description_only \<and>
   fst (extract_product_info (reply_world reply_description_only) (Some (ascii ''filing text''))
         (ascii ''Apple Inc.'') (ascii ''AAPL'')) = None"
proof -
  have g: "ollama_generate (reply_world reply_description_only)
          (build_prompt (ascii ''filing text'') (ascii ''Apple Inc.'') (ascii ''AAPL'')) =
        Inr reply_description_only"
    by (simp add: reply_world_def)
  have n: "\<not> str_contains name_anchor reply_description_only"
    by (simp add: str_contains_def reply_description_only_def literals)
  have d: "str_contains desc_anchor reply_description_only"
    by (simp add: str_contains_def reply_description_only_def literals)
  from n have "\<not> str_contains name_anchor reply_description_only \<or>
      field_after name_anchor reply_description_only = []" by simp
  with g have "fst (extract_product_info (reply_world reply_description_only)
      (Some (ascii ''filing text'')) (ascii ''Apple Inc.'') (ascii ''AAPL'')) = None"
    by (rule missing_name_guard)
  with n d show ?thesis by simp
qed

text \<open>
  Claim C3. The description of a returned record is the extracted text itself when
  that has at most 180 characters; when it has more, it is the first 177 characters
  followed by the three characters "...", 180 characters in all.
\<close>

theorem description_cap:
  assumes "text \<noteq> []"
      and "ollama_generate w (build_prompt text company_name ticker) = Inr r"
      and "fst (extract_product_info w (Some text) company_name ticker) = Some p"
      and "str_contains desc_anchor r"
  shows "(length (field_after desc_anchor r) > 180 \<longrightarrow>
            product_description p = take 177 (field_after desc_anchor r) @ ascii ''...'' \<and>
            length (product_description p) = 180) \<and>
         (length (field_after desc_anchor r) \<le> 180 \<longrightarrow>
            product_description p = field_after desc_anchor r)"
proof -
  let ?d = "field_after desc_anchor r"
  from assms(1-3) have "parse_response r = Some p" by (simp add: extract_reply)
  with assms(4) have p: "product_description p = cap_description ?d"
    by (auto simp: parse_response_def Let_def split: if_splits)
  have s: "py_slice ?d 0 177 = take 177 ?d"
    using py_slice_take [of ?d 177] by simp
  show ?thesis
    unfolding p by (auto simp: cap_description_def s ascii_def)
qed

theorem description_cap_witness:
  "length long_description = 181 \<and>
   fst (extract_product_info (reply_world reply_long_description) (Some (ascii ''filing text''))
          (ascii ''Apple Inc.'') (ascii ''AAPL'')) =
     Some \<lparr>new_product = ascii ''Widget X'',
           product_description = take 177 long_description @ ascii ''...''\<rparr> \<and>
   length (take 177 long_description @ ascii ''...'') = 180"
proof -
  let ?w = "reply_world reply_long_description"
  let ?r = reply_long_description
  let ?p = "\<lparr>new_product = ascii ''Widget X'',
             product_description = take 177 long_description @ ascii ''...''\<rparr>"
  have t: "ascii ''filing text'' \<noteq> []" by (simp add: ascii_def)
  have g: "ollama_generate ?w
          (build_prompt (ascii ''filing text'') (ascii ''Apple Inc.'') (ascii ''AAPL'')) = Inr ?r"
    by (simp add: reply_world_def)
  have l: "length long_description = 181"
    by (simp add: long_description_def ascii_def)
  have s: "\<not> str_contains sentinel ?r"
    by (simp add: str_contains_def reply_long_description_def long_description_def literals)
  have i: "find_idx name_anchor ?r = Some 0"
    by (simp add: reply_long_description_def literals)
  then have n: "str_contains name_anchor ?r" by (simp add: str_contains_def)
  have "field_after name_anchor ?r = strip (ascii '' Widget X'')"
  proof (rule field_after_line [OF i])
    show "drop (0 + length name_anchor) ?r =
            ascii '' Widget X'' @ [10] @ ascii ''Product Description: '' @ long_description @ [10]"
      by (simp add: reply_long_description_def literals)
    show "10 \<notin> set (ascii '' Widget X'')" by (simp add: ascii_def)
    show "[10] @ ascii ''Product Description: '' @ long_description @ [10] = [] \<or>
          hd ([10] @ ascii ''Product Description: '' @ long_description @ [10]) = 10"
      by simp
  qed
  also have "\<dots> = ascii ''Widget X''"
    by (simp add: strip_def isspace_def ascii_def)
  finally have f: "field_after name_anchor ?r = ascii ''Widget X''" .
  have j: "find_idx desc_anchor ?r = Some 27"
    by (simp add: reply_long_description_def literals)
  then have d: "str_contains desc_anchor ?r" by (simp add: str_contains_def)
  have "field_after desc_anchor ?r = strip (32 # long_description)"
  proof (rule field_after_line [OF j])
    show "drop (27 + length desc_anchor) ?r = (32 # long_description) @ [10]"
      by (simp add: reply_long_description_def literals)
    show "10 \<notin> set (32 # long_description)"
      by (simp add: long_description_def ascii_def)
    show "[10] = [] \<or> hd [10] = (10::nat)" by simp
  qed
  also have "\<dots> = long_description"
    by (simp add: strip_def isspace_def long_description_def ascii_def)
  finally have fd: "field_after desc_anchor ?r = long_description" .
  have c: "cap_description long_description = take 177 long_description @ ascii ''...''"
  proof -
    from l have "long_description \<noteq> []" by auto
    with l show ?thesis
      by (simp add: cap_description_def py_slice_take [of long_description 177, simplified])
  qed
  have "parse_response ?r = Some ?p"
    using s n d by (simp add: parse_response_def f fd c ascii_def)
  with t g have r: "fst (extract_product_info ?w (Some (ascii ''filing text''))
          (ascii ''Apple Inc.'') (ascii ''AAPL'')) = Some ?p"
    by (simp add: extract_reply)
  have "length (product_description ?p) = 180"
    using description_cap [OF t g r d] l fd by simp
  with r l show ?thesis by simp
qed

text \<open>
  Claim C4. With an absent or empty filing text the function returns an absent
  result and does nothing to the world: no event at all, so no call of the model.
\<close>

theorem empty_input_guard:
  "filing_content = None \<or> filing_content = Some [] \<Longrightarrow>
   extract_product_info w filing_content company_name ticker = (None, [])"
  by (auto simp: extract_product_info_def)

theorem empty_input_guard_witness:
  "extract_product_info (reply_world reply_with_sentinel) None (ascii ''Apple Inc.'') (ascii ''AAPL'') = (None, []) \<and>
   extract_product_info (reply_world reply_with_sentinel) (Some []) (ascii ''Apple Inc.'') (ascii ''AAPL'') = (None, [])"
  using empty_input_guard [of None "reply_world reply_with_sentinel" "ascii ''Apple Inc.''" "ascii ''AAPL''"]
        empty_input_guard [of "Some []" "reply_world reply_with_sentinel" "ascii ''Apple Inc.''" "ascii ''AAPL''"]
  by simp

text \<open>
  Claim C10. When a non-empty product name is extracted and the anchor
  "Product Description:" is not in the reply, or the text after it strips to the
  empty string, the result is a record whose description is the empty string.
\<close>

theorem empty_description_record:
  assumes "text \<noteq> []"
      and "ollama_generate w (build_prompt text company_name ticker) = Inr r"
      and "\<not> str_contains sentinel r"
      and "str_contains name_anchor r"
      and "field_after name_anchor r \<noteq> []"
      and "\<not> str_contains desc_anchor r \<or> field_after desc_anchor r = []"
  shows "fst (extract_product_info w (Some text) company_name ticker) =
           Some \<lparr>new_product = field_after name_anchor r, product_description = []\<rparr>"
proof -
  from assms(3-6) have "parse_response r =
      Some \<lparr>new_product = field_after name_anchor r, product_description = []\<rparr>"
    by (auto simp: parse_response_def Let_def cap_description_Nil)
  with assms(1,2) show ?thesis by (simp add: extract_reply)
qed

theorem empty_description_record_witness:
  "fst (extract_product_info (reply_world reply_name_only) (Some (ascii ''filing text''))
         (ascii ''Apple Inc.'') (ascii ''AAPL'')) =
   Some \<lparr>new_product = ascii ''Vision Pro 2'', product_description = []\<rparr>"
proof -
  have t: "ascii ''filing text'' \<noteq> []" by (simp add: ascii_def)
  have g: "ollama_generate (reply_world reply_name_only)
          (build_prompt (ascii ''filing text'') (ascii ''Apple Inc.'') (ascii ''AAPL'')) =
        Inr reply_name_only"
    by (simp add: reply_world_def)
  have s: "\<not> str_contains sentinel reply_name_only"
    by (simp add: str_contains_def reply_name_only_def literals)
  have i: "find_idx name_anchor reply_name_only = Some 3"
    by (simp add: reply_name_only_def literals)
  then have n: "str_contains name_anchor reply_name_only"
    by (simp add: str_contains_def)
  have "field_after name_anchor reply_name_only = strip (ascii '' Vision Pro 2'')"
  proof (rule field_after_line [OF i])
    show "drop (3 + length name_anchor) reply_name_only =
            ascii '' Vision Pro 2'' @ [10] @ ascii ''Product Description:   ''"
      by (simp add: reply_name_only_def literals)
    show "10 \<notin> set (ascii '' Vision Pro 2'')" by (simp add: ascii_def)
    show "[10] @ ascii ''Product Description:   '' = [] \<or>
          hd ([10] @ ascii ''Product Description:   '') = 10"
      by simp
  qed
  also have "\<dots> = ascii ''Vision Pro 2''"
    by (simp add: strip_def isspace_def ascii_def)
  finally have f: "field_after name_anchor reply_name_only = ascii ''Vision Pro 2''" .
  have f0: "field_after name_anchor reply_name_only \<noteq> []" unfolding f by (simp add: ascii_def)
  have j: "find_idx desc_anchor reply_name_only = Some 34"
    by (simp add: reply_name_only_def literals)
  have "field_after desc_anchor reply_name_only = strip (ascii ''   '')"
  proof (rule field_after_line [OF j])
    show "drop (34 + length desc_anchor) reply_name_only = ascii ''   '' @ []"
      by (simp add: reply_name_only_def literals)
    show "10 \<notin> set (ascii ''   '')" by (simp add: ascii_def)
    show "[] = [] \<or> hd [] = (10::nat)" by simp
  qed
  also have "\<dots> = []" by (simp add: strip_def isspace_def ascii_def)
  finally have d: "\<not> str_contains desc_anchor reply_name_only \<or>
      field_after desc_anchor reply_name_only = []" by simp
  show ?thesis
    using empty_description_record [OF t g s n f0 d] f by simp
qed

section \<open>The filing index fetcher\<close>

lemma bind_Inr [simp]: "bind (Inr v) f = f v"
  by (simp add: bind_def)

lemma bind_Inl [simp]: "bind (Inl e) f = Inl e"
  by (simp add: bind_def)

lemma map_exn_Inr:
  "\<forall>x\<in>set xs. f x = Inr (g x) \<Longrightarrow> map_exn f xs = Inr (map g xs)"
  by (induction xs) simp_all

lemma concat_if_filter:
  "concat (map (\<lambda>i. if P i then [i] else []) xs) = filter P xs"
  by (induction xs) simp_all

lemma enumerate_nth: "List.enumerate 0 xs = map (\<lambda>i. (i, xs ! i)) [0..<length xs]"
  by (rule nth_equalityI) (simp_all add: enumerate_eq_zip)

lemma form_indices_filter:
  "[i. (i, form) \<leftarrow> List.enumerate 0 items, form = v] =
     filter (\<lambda>i. items ! i = v) [0..<length items]"
  by (simp add: enumerate_nth comp_def concat_if_filter)

lemma zip3_nth:
  assumes "length ds = length fs" "length as = length fs"
  shows "zip fs (zip ds as) = map (\<lambda>i. (fs ! i, ds ! i, as ! i)) [0..<length fs]"
  using assms by (intro nth_equalityI) simp_all

lemma select_by_index:
  assumes "length ds = length fs" "length as = length fs"
  shows "map (\<lambda>i. (ds ! i, as ! i)) (filter (\<lambda>i. fs ! i = v) [0..<length fs]) =
         map snd (filter (\<lambda>(f, da). f = v) (zip fs (zip ds as)))"
  by (simp add: zip3_nth [OF assms] filter_map comp_def)

lemma length_filter_index:
  "length (filter (\<lambda>i. fs ! i = v) [0..<length fs]) = length (filter (\<lambda>f. f = v) fs)"
proof -
  have "filter (\<lambda>f. f = v) fs = filter (\<lambda>f. f = v) (map (\<lambda>i. fs ! i) [0..<length fs])"
    by (simp add: map_nth)
  also have "\<dots> = map (\<lambda>i. fs ! i) (filter (\<lambda>i. fs ! i = v) [0..<length fs])"
    by (simp add: filter_map comp_def)
  finally show ?thesis by simp
qed

lemma filings_of_wellformed:
  assumes top: "map_of data (ascii ''filings'') = Some (JObj fl)"
      and fl: "map_of fl (ascii ''recent'') = Some (JObj rc)"
      and forms: "map_of rc (ascii ''form'') = Some (JArr forms)"
      and dates: "map_of rc (ascii ''filingDate'') = Some (JArr dates)"
      and accs: "map_of rc (ascii ''accessionNumber'') = Some (JArr accs)"
      and len: "length dates = length forms" "length accs = length forms"
  shows "filings_of_response (JObj data) =
           Inr (map snd (filter (\<lambda>(f, da). f = JStr form_8k) (zip forms (zip dates accs))))"
proof -
  let ?idx = "filter (\<lambda>i. forms ! i = JStr form_8k) [0..<length forms]"
  have in_top: "ascii ''filings'' \<in> fst ` set data"
    using top by (metis domI dom_map_of_conv_image_fst)
  have in_fl: "ascii ''recent'' \<in> fst ` set fl"
    using fl by (metis domI dom_map_of_conv_image_fst)
  have d: "map_exn (getitem_int (JArr dates)) ?idx = Inr (map (\<lambda>i. dates ! i) ?idx)"
    by (rule map_exn_Inr) (simp add: len)
  have a: "map_exn (getitem_int (JArr accs)) ?idx = Inr (map (\<lambda>i. accs ! i) ?idx)"
    by (rule map_exn_Inr) (simp add: len)
  have z: "zip (map (\<lambda>i. dates ! i) ?idx) (map (\<lambda>i. accs ! i) ?idx) =
           map (\<lambda>i. (dates ! i, accs ! i)) ?idx"
    by (simp add: zip_map_map zip_same_conv_map)
  have "filings_of_response (JObj data) =
          (if ?idx = [] then Inr [] else Inr (map (\<lambda>i. (dates ! i, accs ! i)) ?idx))"
    unfolding filings_of_response_def
    by (simp add: in_top in_fl top fl forms dates accs form_indices_filter Let_def d a z
          del: getitem_int.simps)
  also have "\<dots> = Inr (map (\<lambda>i. (dates ! i, accs ! i)) ?idx)"
    by simp
  finally show ?thesis
    by (simp only: select_by_index [OF len])
qed

lemma key_in_map_of: "map_of kvs k = Some v \<Longrightarrow> k \<in> fst ` set kvs"
  by (metis domI dom_map_of_conv_image_fst)

text \<open>
  Claim C5. For an index response of the expected shape, with parallel arrays of one
  length, the fetcher returns the (filing date, accession number) pairs of exactly
  the entries whose form is "8-K", in the order of the arrays: as many pairs as
  there are such entries, and nothing for any other form.
\<close>

theorem form_filtering:
  assumes "http_get_json w (search_url cik) = Inr (JObj data)"
      and "map_of data (ascii ''filings'') = Some (JObj fl)"
      and "map_of fl (ascii ''recent'') = Some (JObj rc)"
      and "map_of rc (ascii ''form'') = Some (JArr forms)"
      and "map_of rc (ascii ''filingDate'') = Some (JArr dates)"
      and "map_of rc (ascii ''accessionNumber'') = Some (JArr accs)"
      and "length dates = length forms" and "length accs = length forms"
  shows "fst (get_8k_filings w cik) =
           map snd (filter (\<lambda>(form, ref). form = JStr form_8k) (zip forms (zip dates accs))) \<and>
         length (fst (get_8k_filings w cik)) = length (filter (\<lambda>form. form = JStr form_8k) forms)"
proof -
  let ?refs = "map snd (filter (\<lambda>(form, ref). form = JStr form_8k) (zip forms (zip dates accs)))"
  have "filings_of_response (JObj data) = Inr ?refs"
    using assms(2-8) by (rule filings_of_wellformed)
  with assms(1) have r: "fst (get_8k_filings w cik) = ?refs"
    by (simp add: get_8k_filings_def)
  have "length ?refs = length (filter (\<lambda>i. forms ! i = JStr form_8k) [0..<length forms])"
    using select_by_index [OF assms(7,8), of "JStr form_8k", symmetric] by simp
  also have "\<dots> = length (filter (\<lambda>form. form = JStr form_8k) forms)"
    by (rule length_filter_index)
  finally show ?thesis using r by simp
qed

theorem form_filtering_witness:
  "fst (get_8k_filings (fixed_world (Inr (index_json three_forms three_dates three_accessions)) []) 
          (ascii ''0000320193'')) =
     [(JStr (ascii ''2024-05-02''), JStr (ascii ''0000320193-24-000069'')),
      (JStr (ascii ''2024-02-01''), JStr (ascii ''0000320193-24-000005''))]"
proof -
  let ?w = "fixed_world (Inr (index_json three_forms three_dates three_accessions)) []"
  let ?rc = "[(ascii ''accessionNumber'', JArr three_accessions),
              (ascii ''filingDate'', JArr three_dates),
              (ascii ''form'', JArr three_forms)]"
  let ?fl = "[(ascii ''recent'', JObj ?rc), (ascii ''files'', JArr [])]"
  let ?data = "[(ascii ''cik'', JStr (ascii ''320193'')), (ascii ''filings'', JObj ?fl)]"
  have 1: "http_get_json ?w (search_url (ascii ''0000320193'')) = Inr (JObj ?data)"
    by (simp add: fixed_world_def index_json_def)
  have 2: "map_of ?data (ascii ''filings'') = Some (JObj ?fl)" by (simp add: ascii_def)
  have 3: "map_of ?fl (ascii ''recent'') = Some (JObj ?rc)" by simp
  have 4: "map_of ?rc (ascii ''form'') = Some (JArr three_forms)" by (simp add: ascii_def)
  have 5: "map_of ?rc (ascii ''filingDate'') = Some (JArr three_dates)" by (simp add: ascii_def)
  have 6: "map_of ?rc (ascii ''accessionNumber'') = Some (JArr three_accessions)" by simp
  have 7: "length three_dates = length three_forms" by (simp add: three_dates_def three_forms_def)
  have 8: "length three_accessions = length three_forms"
    by (simp add: three_accessions_def three_forms_def)
  show ?thesis
    using form_filtering [OF 1 2 3 4 5 6 7 8]
    by (simp add: three_forms_def three_dates_def three_accessions_def form_8k_def ascii_def)
qed

text \<open>
  Claim C7, as the claim states it, fails: a response that is a JSON object without
  the key "filings" gives the empty sequence, and nothing is printed.
\<close>

theorem silent_on_missing_key:
  "get_8k_filings (fixed_world (Inr (JObj [(ascii ''cik'', JStr (ascii ''320193''))])) [])
     (ascii ''0000320193'') = ([], [HttpGet (search_url (ascii ''0000320193''))])"
  by (simp add: get_8k_filings_def fixed_world_def filings_of_response_def ascii_def)

text \<open>
  Claim C7, amended. When the request fails, or when processing the response raises
  an exception, the fetcher prints the failure and returns the empty sequence. When
  the response is a JSON object without the key "filings", or one whose "filings"
  object has no key "recent", it returns the empty sequence and prints nothing. In
  every case the caller gets a sequence, never an exception.
\<close>

theorem index_failure_handling:
  "(http_get_json w (search_url cik) = Inl e \<longrightarrow>
      get_8k_filings w cik =
        ([], [HttpGet (search_url cik), Print (ErrorFetchingFilings cik e)])) \<and>
   (http_get_json w (search_url cik) = Inr data \<and> filings_of_response data = Inl e \<longrightarrow>
      get_8k_filings w cik =
        ([], [HttpGet (search_url cik), Print (ErrorFetchingFilings cik e)])) \<and>
   (http_get_json w (search_url cik) = Inr (JObj kvs) \<and>
    (ascii ''filings'' \<notin> fst ` set kvs \<or>
     map_of kvs (ascii ''filings'') = Some (JObj fl) \<and> ascii ''recent'' \<notin> fst ` set fl) \<longrightarrow>
      get_8k_filings w cik = ([], [HttpGet (search_url cik)]))"
proof (intro conjI impI)
  assume "http_get_json w (search_url cik) = Inl e"
  then show "get_8k_filings w cik =
      ([], [HttpGet (search_url cik), Print (ErrorFetchingFilings cik e)])"
    by (simp add: get_8k_filings_def)
next
  assume "http_get_json w (search_url cik) = Inr data \<and> filings_of_response data = Inl e"
  then show "get_8k_filings w cik =
      ([], [HttpGet (search_url cik), Print (ErrorFetchingFilings cik e)])"
    by (simp add: get_8k_filings_def)
next
  assume a: "http_get_json w (search_url cik) = Inr (JObj kvs) \<and>
    (ascii ''filings'' \<notin> fst ` set kvs \<or>
     map_of kvs (ascii ''filings'') = Some (JObj fl) \<and> ascii ''recent'' \<notin> fst ` set fl)"
  then consider "ascii ''filings'' \<notin> fst ` set kvs"
    | "map_of kvs (ascii ''filings'') = Some (JObj fl)" "ascii ''recent'' \<notin> fst ` set fl"
    by blast
  then have "filings_of_response (JObj kvs) = Inr []"
  proof cases
    case 1
    then show ?thesis by (simp add: filings_of_response_def)
  next
    case 2
    from 2(1) have "ascii ''filings'' \<in> fst ` set kvs" by (rule key_in_map_of)
    with 2 show ?thesis by (simp add: filings_of_response_def)
  qed
  with a show "get_8k_filings w cik = ([], [HttpGet (search_url cik)])"
    by (simp add: get_8k_filings_def)
qed

theorem index_failure_handling_witness:
  "get_8k_filings (fixed_world (Inl (RequestException (ascii ''404 Not Found''))) [])
     (ascii ''0000320193'') =
     ([], [HttpGet (search_url (ascii ''0000320193'')),
           Print (ErrorFetchingFilings (ascii ''0000320193'')
                    (RequestException (ascii ''404 Not Found'')))]) \<and>
   get_8k_filings (fixed_world (Inr JNull) []) (ascii ''0000320193'') =
     ([], [HttpGet (search_url (ascii ''0000320193'')),
           Print (ErrorFetchingFilings (ascii ''0000320193'') TypeError)]) \<and>
   get_8k_filings (fixed_world (Inr (JObj [(ascii ''filings'', JObj [])])) [])
     (ascii ''0000320193'') = ([], [HttpGet (search_url (ascii ''0000320193''))])"
proof -
  let ?cik = "ascii ''0000320193''"
  let ?e = "RequestException (ascii ''404 Not Found'')"
  have 1: "http_get_json (fixed_world (Inl ?e) []) (search_url ?cik) = Inl ?e"
    by (simp add: fixed_world_def)
  have 2: "http_get_json (fixed_world (Inr JNull) []) (search_url ?cik) = Inr JNull \<and>
           filings_of_response JNull = Inl TypeError"
    by (simp add: fixed_world_def filings_of_response_def)
  have 3: "http_get_json (fixed_world (Inr (JObj [(ascii ''filings'', JObj [])])) [])
             (search_url ?cik) = Inr (JObj [(ascii ''filings'', JObj [])]) \<and>
           (ascii ''filings'' \<notin> fst ` set [(ascii ''filings'', JObj [])] \<or>
            map_of [(ascii ''filings'', JObj [])] (ascii ''filings'') = Some (JObj []) \<and>
            ascii ''recent'' \<notin> fst ` set [])"
    by (simp add: fixed_world_def)
  show ?thesis
    using index_failure_handling [where w = "fixed_world (Inl ?e) []" and cik = ?cik and e = ?e]
          index_failure_handling [where w = "fixed_world (Inr JNull) []" and cik = ?cik
             and data = JNull and e = TypeError]
          index_failure_handling [where w = "fixed_world (Inr (JObj [(ascii ''filings'', JObj [])])) []"
             and cik = ?cik and kvs = "[(ascii ''filings'', JObj [])]" and fl = "[]"]
          1 2 3
    by blast
qed

section \<open>The driver\<close>

lemma analyzed_simps [simp]:
  "analyzed [] = []"
  "analyzed (Print (Analyzing d) # evs) = d # analyzed evs"
  "analyzed (HttpGet u # evs) = analyzed evs"
  "analyzed (ModelCall p # evs) = analyzed evs"
  "analyzed (Sleep n # evs) = analyzed evs"
  "analyzed (Print (FoundNewProduct x) # evs) = analyzed evs"
  "analyzed (Print (ErrorFetchingContent a e) # evs) = analyzed evs"
  "analyzed (Print (ErrorFetchingFilings a e) # evs) = analyzed evs"
  "analyzed (Print (ErrorExtracting e) # evs) = analyzed evs"
  "analyzed (Print (Processing nm k t) # evs) = analyzed evs"
  "analyzed (xs @ ys) = analyzed xs @ analyzed ys"
  by (simp_all add: analyzed_def)

lemma fetched_simps [simp]:
  "fetched [] = []"
  "fetched (HttpGet u # evs) = u # fetched evs"
  "fetched (Print m # evs) = fetched evs"
  "fetched (ModelCall p # evs) = fetched evs"
  "fetched (Sleep n # evs) = fetched evs"
  "fetched (xs @ ys) = fetched xs @ fetched ys"
  by (simp_all add: fetched_def)

lemma content_string: "\<exists>content ev. get_filing_content w (JStr s) cik = Inr (content, ev)"
  by (simp split: sum.splits)

lemma content_not_string:
  "(\<forall>s. a \<noteq> JStr s) \<Longrightarrow> get_filing_content w a cik = Inl AttributeError"
  by (cases a) simp_all

lemma filings_step:
  assumes "get_filing_content w a (row_cik_str c) = Inr (content, ev1)"
      and "extract_product_info w content (row_title c) (row_ticker c) = (res, ev2)"
      and "process_filings w c rest (df @ (case res of None \<Rightarrow> [] | Some p \<Rightarrow> [new_row c d p])) =
             (r, df', ev3)"
  shows "process_filings w c ((d, a) # rest) df =
           (r, df', Print (Analyzing d) # ev1 @ ev2 @
                    (case res of None \<Rightarrow> [] | Some p \<Rightarrow> [Print (FoundNewProduct (new_product p))]) @
                    Sleep 1 # ev3)"
  using assms by (cases res) simp_all

lemma filings_crash:
  "get_filing_content w a (row_cik_str c) = Inl e \<Longrightarrow>
   process_filings w c ((d, a) # rest) df = (Some e, df, [Print (Analyzing d)])"
  by simp

lemma parse_response_name: "parse_response r = Some p \<Longrightarrow> new_product p \<noteq> []"
  by (auto simp: parse_response_def Let_def split: if_splits)

lemma extract_name:
  "fst (extract_product_info w content name tk) = Some p \<Longrightarrow> new_product p \<noteq> []"
  by (auto simp: extract_product_info_def Let_def parse_response_name
           split: option.splits if_splits sum.splits)

lemma extraction_name: "extraction_for w x = Some p \<Longrightarrow> new_product p \<noteq> []"
  by (auto simp: extraction_for_def extract_name split: prod.splits sum.splits)

lemma readable_iff: "readable (c, d, a) \<longleftrightarrow> (\<exists>s. a = JStr s)"
  by (cases a) (simp_all add: readable_def)

lemma filings_rows:
  "fst (snd (process_filings w c fs df)) =
     df @ concat (map (rows_for w) (takeWhile readable (map (\<lambda>filing. (c, filing)) fs))) \<and>
   (fst (process_filings w c fs df) = None \<longleftrightarrow>
      (\<forall>filing\<in>set fs. readable (c, filing)))"
proof (induction fs arbitrary: df)
  case Nil
  show ?case by simp
next
  case (Cons filing fs)
  obtain d a where filing: "filing = (d, a)" by (cases filing)
  show ?case
  proof (cases "readable (c, d, a)")
    case False
    then have "\<forall>s. a \<noteq> JStr s" by (simp add: readable_iff)
    then have "get_filing_content w a (row_cik_str c) = Inl AttributeError"
      by (rule content_not_string)
    then have "process_filings w c ((d, a) # fs) df = (Some AttributeError, df, [Print (Analyzing d)])"
      by (rule filings_crash)
    with False show ?thesis unfolding filing by simp
  next
    case True
    then obtain s where s: "a = JStr s" by (auto simp: readable_iff)
    obtain content ev1 where c: "get_filing_content w a (row_cik_str c) = Inr (content, ev1)"
      unfolding s using content_string by blast
    obtain res ev2 where x: "extract_product_info w content (row_title c) (row_ticker c) = (res, ev2)"
      by (cases "extract_product_info w content (row_title c) (row_ticker c)")
    let ?new = "case res of None \<Rightarrow> [] | Some p \<Rightarrow> [new_row c d p]"
    have rows: "rows_for w (c, d, a) = ?new"
      using c x by (simp add: rows_for_def extraction_for_def)
    obtain r df' ev3 where rest: "process_filings w c fs (df @ ?new) = (r, df', ev3)"
      by (cases "process_filings w c fs (df @ ?new)")
    have step: "process_filings w c ((d, a) # fs) df =
           (r, df', Print (Analyzing d) # ev1 @ ev2 @
                    (case res of None \<Rightarrow> [] | Some p \<Rightarrow> [Print (FoundNewProduct (new_product p))]) @
                    Sleep 1 # ev3)"
      using c x rest by (rule filings_step)
    from Cons.IH [of "df @ ?new"] rest
    have ih: "df' = (df @ ?new) @
                concat (map (rows_for w) (takeWhile readable (map (\<lambda>filing. (c, filing)) fs)))"
      and ok: "r = None \<longleftrightarrow> (\<forall>filing\<in>set fs. readable (c, filing))"
      by simp_all
    show ?thesis
      unfolding filing step using True ih ok rows by simp
  qed
qed

lemma takeWhile_all: "\<forall>x\<in>set xs. P x \<Longrightarrow> takeWhile P (xs @ ys) = xs @ takeWhile P ys"
  by (induction xs) simp_all

lemma takeWhile_stop: "\<not> (\<forall>x\<in>set xs. P x) \<Longrightarrow> takeWhile P (xs @ ys) = takeWhile P xs"
  by (induction xs) auto

lemma companies_rows:
  "fst (snd (process_companies w cs df)) =
     df @ concat (map (rows_for w) (takeWhile readable (selected w cs)))"
proof (induction cs arbitrary: df)
  case Nil
  show ?case by (simp add: selected_def)
next
  case (Cons c cs)
  let ?fs = "take 5 (fst (get_8k_filings w (row_cik_str c)))"
  let ?pairs = "map (\<lambda>filing. (c, filing)) ?fs"
  obtain filings ev1 where g: "get_8k_filings w (row_cik_str c) = (filings, ev1)"
    by (cases "get_8k_filings w (row_cik_str c)")
  obtain r df1 ev2 where p: "process_filings w c (take 5 filings) df = (r, df1, ev2)"
    by (cases "process_filings w c (take 5 filings) df")
  have sel: "selected w (c # cs) = ?pairs @ selected w cs"
    by (simp add: selected_def)
  from filings_rows [of w c "take 5 filings" df] p g
  have df1: "df1 = df @ concat (map (rows_for w) (takeWhile readable ?pairs))"
    and ok: "r = None \<longleftrightarrow> (\<forall>filing\<in>set ?fs. readable (c, filing))"
    by simp_all
  show ?case
  proof (cases r)
    case (Some e)
    with ok have "\<not> (\<forall>x\<in>set ?pairs. readable x)" by simp
    then have "takeWhile readable (?pairs @ selected w cs) = takeWhile readable ?pairs"
      by (rule takeWhile_stop)
    moreover have "fst (snd (process_companies w (c # cs) df)) = df1"
      using g p Some by simp
    ultimately show ?thesis unfolding sel using df1 by simp
  next
    case None
    with ok have "\<forall>x\<in>set ?pairs. readable x" by simp
    then have t: "takeWhile readable (?pairs @ selected w cs) =
        ?pairs @ takeWhile readable (selected w cs)"
      by (rule takeWhile_all)
    have t0: "takeWhile readable ?pairs = ?pairs"
      using \<open>\<forall>x\<in>set ?pairs. readable x\<close> by (simp add: takeWhile_eq_all_conv)
    have "fst (snd (process_companies w (c # cs) df)) = fst (snd (process_companies w cs df1))"
      using g p None by (simp split: prod.splits)
    also have "\<dots> = df1 @ concat (map (rows_for w) (takeWhile readable (selected w cs)))"
      by (rule Cons.IH)
    finally show ?thesis unfolding sel t using df1 t0 by simp
  qed
qed

lemma takeWhile_prefix_append: "prefix (takeWhile P xs) (takeWhile P (xs @ ys))"
  by (induction xs) simp_all

lemma selected_append: "selected w (cs @ cs') = selected w cs @ selected w cs'"
  by (simp add: selected_def)

lemma index_json_filings:
  assumes "length dates = length forms" "length accs = length forms"
  shows "fst (get_8k_filings (fixed_world (Inr (index_json forms dates accs)) reply) cik) =
           map snd (filter (\<lambda>(form, ref). form = JStr form_8k) (zip forms (zip dates accs)))"
proof -
  let ?rc = "[(ascii ''accessionNumber'', JArr accs), (ascii ''filingDate'', JArr dates),
              (ascii ''form'', JArr forms)]"
  let ?fl = "[(ascii ''recent'', JObj ?rc), (ascii ''files'', JArr [])]"
  let ?data = "[(ascii ''cik'', JStr (ascii ''320193'')), (ascii ''filings'', JObj ?fl)]"
  have 2: "map_of ?data (ascii ''filings'') = Some (JObj ?fl)" by (simp add: ascii_def)
  have 3: "map_of ?fl (ascii ''recent'') = Some (JObj ?rc)" by simp
  have 4: "map_of ?rc (ascii ''form'') = Some (JArr forms)" by (simp add: ascii_def)
  have 5: "map_of ?rc (ascii ''filingDate'') = Some (JArr dates)" by (simp add: ascii_def)
  have 6: "map_of ?rc (ascii ''accessionNumber'') = Some (JArr accs)" by simp
  have "filings_of_response (JObj ?data) =
        Inr (map snd (filter (\<lambda>(form, ref). form = JStr form_8k) (zip forms (zip dates accs))))"
    using 2 3 4 5 6 assms by (rule filings_of_wellformed)
  then show ?thesis
    by (simp add: get_8k_filings_def fixed_world_def index_json_def)
qed

lemma name_only_sentinel: "\<not> str_contains sentinel reply_name_only"
  by (simp add: str_contains_def reply_name_only_def literals)

lemma name_only_name_idx: "find_idx name_anchor reply_name_only = Some 3"
  by (simp add: reply_name_only_def literals)

lemma name_only_desc_idx: "find_idx desc_anchor reply_name_only = Some 34"
  by (simp add: reply_name_only_def literals)

lemma name_only_name: "field_after name_anchor reply_name_only = ascii ''Vision Pro 2''"
proof -
  have "field_after name_anchor reply_name_only = strip (ascii '' Vision Pro 2'')"
  proof (rule field_after_line [OF name_only_name_idx])
    show "drop (3 + length name_anchor) reply_name_only =
            ascii '' Vision Pro 2'' @ [10] @ ascii ''Product Description:   ''"
      by (simp add: reply_name_only_def literals)
    show "10 \<notin> set (ascii '' Vision Pro 2'')" by (simp add: ascii_def)
    show "[10] @ ascii ''Product Description:   '' = [] \<or>
          hd ([10] @ ascii ''Product Description:   '') = 10"
      by simp
  qed
  also have "\<dots> = ascii ''Vision Pro 2''"
    by (simp add: strip_def isspace_def ascii_def)
  finally show ?thesis .
qed

lemma name_only_desc: "field_after desc_anchor reply_name_only = []"
proof -
  have "field_after desc_anchor reply_name_only = strip (ascii ''   '')"
  proof (rule field_after_line [OF name_only_desc_idx])
    show "drop (34 + length desc_anchor) reply_name_only = ascii ''   '' @ []"
      by (simp add: reply_name_only_def literals)
    show "10 \<notin> set (ascii ''   '')" by (simp add: ascii_def)
    show "[] = [] \<or> hd [] = (10::nat)" by simp
  qed
  also have "\<dots> = []" by (simp add: strip_def isspace_def ascii_def)
  finally show ?thesis .
qed

lemma parse_name_only:
  "parse_response reply_name_only =
     Some \<lparr>new_product = ascii ''Vision Pro 2'', product_description = []\<rparr>"
proof -
  have n: "str_contains name_anchor reply_name_only"
    using name_only_name_idx by (simp add: str_contains_def)
  have d: "str_contains desc_anchor reply_name_only"
    using name_only_desc_idx by (simp add: str_contains_def)
  have "ascii ''Vision Pro 2'' \<noteq> []" by (simp add: ascii_def)
  then show ?thesis
    using name_only_sentinel n d
    by (simp add: parse_response_def name_only_name name_only_desc cap_description_Nil)
qed

lemma fixed_document:
  "get_filing_content (fixed_world index reply) (JStr s) cik =
     Inr (Some (ascii ''Widget X launch''), [HttpGet (filing_url s cik)])"
proof -
  have doc: "http_get_text (fixed_world index reply) (filing_url s cik) =
             Inr (ascii ''<TEXT>Widget X launch</TEXT>'')"
    by (simp add: fixed_world_def)
  have seg: "text_segment (ascii ''<TEXT>Widget X launch</TEXT>'') = Some (ascii ''Widget X launch'')"
    by (simp add: text_segment_def ascii_def)
  have st: "strip (ascii ''Widget X launch'') = ascii ''Widget X launch''"
    by (simp add: strip_def isspace_def ascii_def)
  have "extract_section (fixed_world index reply) (ascii ''Widget X launch'') =
          str_replace [32, 9744, 32] [32] (str_replace [8195] [32] (str_replace [8194] [32]
            (str_replace [8201] [32] (str_replace [160] [32] (ascii ''Widget X launch'')))))"
    by (simp add: extract_section_def fixed_world_def st)
  also have "\<dots> = ascii ''Widget X launch''"
    by (simp add: ascii_def)
  finally have sec: "extract_section (fixed_world index reply) (ascii ''Widget X launch'') =
             ascii ''Widget X launch''" .
  show ?thesis
    by (simp add: doc seg sec)
qed

lemma fixed_extraction:
  "extraction_for (fixed_world index reply) (c, d, JStr s) = parse_response reply"
proof -
  have t: "ascii ''Widget X launch'' \<noteq> []" by (simp add: ascii_def)
  have g: "ollama_generate (fixed_world index reply)
             (build_prompt (ascii ''Widget X launch'') (row_title c) (row_ticker c)) = Inr reply"
    by (simp add: fixed_world_def)
  have "extraction_for (fixed_world index reply) (c, d, JStr s) =
          fst (extract_product_info (fixed_world index reply) (Some (ascii ''Widget X launch''))
                 (row_title c) (row_ticker c))"
    by (simp add: extraction_for_def fixed_document del: get_filing_content.simps)
  also have "\<dots> = parse_response reply"
    using t g by (rule extract_reply)
  finally show ?thesis .
qed

lemma prompted_simps [simp]:
  "prompted [] = []"
  "prompted (ModelCall p # evs) = p # prompted evs"
  "prompted (HttpGet u # evs) = prompted evs"
  "prompted (Print m # evs) = prompted evs"
  "prompted (Sleep n # evs) = prompted evs"
  "prompted (xs @ ys) = prompted xs @ prompted ys"
  by (simp_all add: prompted_def)

lemma paused_simps [simp]:
  "paused [] = []"
  "paused (Sleep n # evs) = n # paused evs"
  "paused (HttpGet u # evs) = paused evs"
  "paused (Print m # evs) = paused evs"
  "paused (ModelCall p # evs) = paused evs"
  "paused (xs @ ys) = paused xs @ paused ys"
  by (simp_all add: paused_def)

lemma index_events:
  "analyzed (snd (get_8k_filings w cik)) = [] \<and>
   fetched (snd (get_8k_filings w cik)) = [search_url cik] \<and>
   prompted (snd (get_8k_filings w cik)) = [] \<and>
   paused (snd (get_8k_filings w cik)) = []"
  by (simp add: get_8k_filings_def split: sum.splits)

lemma filing_events:
  assumes c: "get_filing_content w (JStr s) (row_cik_str c) = Inr (content, ev1)"
      and x: "extract_product_info w content (row_title c) (row_ticker c) = (res, ev2)"
  shows "analyzed (ev1 @ ev2) = [] \<and>
         fetched (ev1 @ ev2) = [filing_url s (row_cik_str c)] \<and>
         prompted (ev1 @ ev2) = document_prompt w c s \<and>
         paused (ev1 @ ev2) = []"
proof (cases "http_get_text w (filing_url s (row_cik_str c))")
  case (Inl e)
  with c have "content = None"
    and "ev1 = [HttpGet (filing_url s (row_cik_str c)), Print (ErrorFetchingContent s e)]"
    by simp_all
  moreover from this x have "ev2 = []" by (simp add: extract_product_info_def)
  ultimately show ?thesis using Inl by (simp add: document_prompt_def)
next
  case (Inr raw)
  let ?text = "extract_section w (case text_segment raw of Some body \<Rightarrow> body | None \<Rightarrow> raw)"
  from c Inr have content: "content = Some ?text"
    and ev1: "ev1 = [HttpGet (filing_url s (row_cik_str c))]"
    by (simp_all split: option.splits)
  show ?thesis
  proof (cases "?text = []")
    case True
    with x content have "ev2 = []" by (simp add: extract_product_info_def)
    with ev1 True Inr show ?thesis by (simp add: document_prompt_def Let_def)
  next
    case False
    with x content have "prompted ev2 = [build_prompt ?text (row_title c) (row_ticker c)]"
      and "analyzed ev2 = []" and "fetched ev2 = []" and "paused ev2 = []"
      by (auto simp: extract_product_info_def Let_def split: sum.splits)
    with ev1 False Inr show ?thesis by (simp add: document_prompt_def Let_def)
  qed
qed

lemma filings_run:
  "\<exists>df' ev. process_filings w c (map (\<lambda>(d, s). (d, JStr s)) refs) df = (None, df', ev) \<and>
     analyzed ev = map fst refs \<and>
     fetched ev = map (\<lambda>(d, s). filing_url s (row_cik_str c)) refs \<and>
     prompted ev = concat (map (\<lambda>(d, s). document_prompt w c s) refs) \<and>
     paused ev = map (\<lambda>ref. 1) refs"
proof (induction refs arbitrary: df)
  case Nil
  show ?case by simp
next
  case (Cons ref refs)
  obtain d s where ref: "ref = (d, s)" by (cases ref)
  obtain content ev1 where c: "get_filing_content w (JStr s) (row_cik_str c) = Inr (content, ev1)"
    using content_string by blast
  obtain res ev2 where x: "extract_product_info w content (row_title c) (row_ticker c) = (res, ev2)"
    by (cases "extract_product_info w content (row_title c) (row_ticker c)")
  let ?df = "df @ (case res of None \<Rightarrow> [] | Some p \<Rightarrow> [new_row c d p])"
  let ?found = "case res of None \<Rightarrow> [] | Some p \<Rightarrow> [Print (FoundNewProduct (new_product p))]"
  from Cons.IH [of ?df] obtain df' ev3 where
    r: "process_filings w c (map (\<lambda>(d, s). (d, JStr s)) refs) ?df = (None, df', ev3)"
    and a: "analyzed ev3 = map fst refs"
    and f: "fetched ev3 = map (\<lambda>(d, s). filing_url s (row_cik_str c)) refs"
    and p: "prompted ev3 = concat (map (\<lambda>(d, s). document_prompt w c s) refs)"
    and z: "paused ev3 = map (\<lambda>ref. 1) refs"
    by blast
  have e: "analyzed (ev1 @ ev2) = []" "fetched (ev1 @ ev2) = [filing_url s (row_cik_str c)]"
    "prompted (ev1 @ ev2) = document_prompt w c s" "paused (ev1 @ ev2) = []"
    using filing_events [OF c x] by simp_all
  have found: "analyzed ?found = []" "fetched ?found = []" "prompted ?found = []" "paused ?found = []"
    by (cases res; simp)+
  let ?ev = "Print (Analyzing d) # (ev1 @ ev2) @ ?found @ Sleep 1 # ev3"
  have "process_filings w c (map (\<lambda>(d, s). (d, JStr s)) (ref # refs)) df = (None, df', ?ev)"
    unfolding ref using filings_step [OF c x r] by simp
  moreover have "analyzed ?ev = map fst (ref # refs)"
    using e found a ref by simp
  moreover have "fetched ?ev = map (\<lambda>(d, s). filing_url s (row_cik_str c)) (ref # refs)"
    using e found f ref by simp
  moreover have "prompted ?ev = concat (map (\<lambda>(d, s). document_prompt w c s) (ref # refs))"
    using e found p ref by simp
  moreover have "paused ?ev = map (\<lambda>ref. 1) (ref # refs)"
    using e found z ref by simp
  ultimately show ?case by blast
qed

lemma companies_step:
  assumes "get_8k_filings w (row_cik_str c) = (filings, ev1)"
      and "process_filings w c (take 5 filings) df = (None, df1, ev2)"
      and "process_companies w cs df1 = (r, df2, ev3)"
  shows "process_companies w (c # cs) df =
           (r, df2, Print (Processing (row_title c) (row_cik_str c) (row_ticker c)) # ev1 @ ev2 @ ev3)"
  using assms by simp

lemma companies_run:
  assumes "\<forall>c\<in>set cs. take 5 (fst (get_8k_filings w (row_cik_str c))) =
             map (\<lambda>(d, s). (d, JStr s)) (refs c)"
  shows "\<exists>df' ev. process_companies w cs df = (None, df', ev) \<and>
     analyzed ev = concat (map (\<lambda>c. map fst (refs c)) cs) \<and>
     fetched ev = concat (map (\<lambda>c. search_url (row_cik_str c) #
                    map (\<lambda>(d, s). filing_url s (row_cik_str c)) (refs c)) cs) \<and>
     prompted ev = concat (map (\<lambda>c. concat (map (\<lambda>(d, s). document_prompt w c s) (refs c))) cs) \<and>
     paused ev = concat (map (\<lambda>c. map (\<lambda>ref. 1) (refs c)) cs)"
  using assms
proof (induction cs arbitrary: df)
  case Nil
  show ?case by simp
next
  case (Cons c cs)
  obtain filings ev1 where g: "get_8k_filings w (row_cik_str c) = (filings, ev1)"
    by (cases "get_8k_filings w (row_cik_str c)")
  have t: "take 5 filings = map (\<lambda>(d, s). (d, JStr s)) (refs c)"
    using Cons.prems g by simp
  have i: "analyzed ev1 = []" "fetched ev1 = [search_url (row_cik_str c)]"
    "prompted ev1 = []" "paused ev1 = []"
    using index_events [of w "row_cik_str c"] g by simp_all
  obtain df1 ev2 where
    p: "process_filings w c (take 5 filings) df = (None, df1, ev2)"
    and f: "analyzed ev2 = map fst (refs c)"
      "fetched ev2 = map (\<lambda>(d, s). filing_url s (row_cik_str c)) (refs c)"
      "prompted ev2 = concat (map (\<lambda>(d, s). document_prompt w c s) (refs c))"
      "paused ev2 = map (\<lambda>ref. 1) (refs c)"
    using filings_run [of w c "refs c" df] unfolding t by blast
  have "\<forall>c\<in>set cs. take 5 (fst (get_8k_filings w (row_cik_str c))) =
             map (\<lambda>(d, s). (d, JStr s)) (refs c)"
    using Cons.prems by simp
  from Cons.IH [OF this, of df1] obtain df2 ev3 where
    r: "process_companies w cs df1 = (None, df2, ev3)"
    and h: "analyzed ev3 = concat (map (\<lambda>c. map fst (refs c)) cs)"
      "fetched ev3 = concat (map (\<lambda>c. search_url (row_cik_str c) #
                    map (\<lambda>(d, s). filing_url s (row_cik_str c)) (refs c)) cs)"
      "prompted ev3 = concat (map (\<lambda>c. concat (map (\<lambda>(d, s). document_prompt w c s) (refs c))) cs)"
      "paused ev3 = concat (map (\<lambda>c. map (\<lambda>ref. 1) (refs c)) cs)"
    by blast
  let ?ev = "Print (Processing (row_title c) (row_cik_str c) (row_ticker c)) # ev1 @ ev2 @ ev3"
  have "process_companies w (c # cs) df = (None, df2, ?ev)"
    using g p r by (rule companies_step)
  moreover have "analyzed ?ev = concat (map (\<lambda>c. map fst (refs c)) (c # cs))"
    using i f h by simp
  moreover have "fetched ?ev = concat (map (\<lambda>c. search_url (row_cik_str c) #
                    map (\<lambda>(d, s). filing_url s (row_cik_str c)) (refs c)) (c # cs))"
    using i f h by simp
  moreover have "prompted ?ev =
      concat (map (\<lambda>c. concat (map (\<lambda>(d, s). document_prompt w c s) (refs c))) (c # cs))"
    using i f h by simp
  moreover have "paused ?ev = concat (map (\<lambda>c. map (\<lambda>ref. 1) (refs c)) (c # cs))"
    using i f h by simp
  ultimately show ?case by blast
qed

lemma fixed_prompt:
  "document_prompt (fixed_world index reply) c s =
     [build_prompt (ascii ''Widget X launch'') (row_title c) (row_ticker c)]"
proof -
  have doc: "http_get_text (fixed_world index reply) (filing_url s (row_cik_str c)) =
             Inr (ascii ''<TEXT>Widget X launch</TEXT>'')"
    by (simp add: fixed_world_def)
  have seg: "text_segment (ascii ''<TEXT>Widget X launch</TEXT>'') = Some (ascii ''Widget X launch'')"
    by (simp add: text_segment_def ascii_def)
  have st: "strip (ascii ''Widget X launch'') = ascii ''Widget X launch''"
    by (simp add: strip_def isspace_def ascii_def)
  have "extract_section (fixed_world index reply) (ascii ''Widget X launch'') =
          str_replace [32, 9744, 32] [32] (str_replace [8195] [32] (str_replace [8194] [32]
            (str_replace [8201] [32] (str_replace [160] [32] (ascii ''Widget X launch'')))))"
    by (simp add: extract_section_def fixed_world_def st)
  also have "\<dots> = ascii ''Widget X launch''"
    by (simp add: ascii_def)
  finally have sec: "extract_section (fixed_world index reply) (ascii ''Widget X launch'') =
             ascii ''Widget X launch''" .
  have "ascii ''Widget X launch'' \<noteq> []" by (simp add: ascii_def)
  then show ?thesis
    by (simp add: document_prompt_def doc seg sec)
qed

text \<open>
  Claim C6. Take any list of companies such that, of every company, the first five
  filings that the index fetch returns have accession numbers that are strings. Then
  the run ends without an exception, and for each company in turn the driver
  processes exactly the first five returned filings in the order of the index, and
  no other: it announces their filing dates, reads their documents, submits their
  prompts to the model and pauses once after each. So of a company with more than
  five returned filings it processes five, and of a company with at most five it
  processes all.
\<close>

theorem cap_enforcement:
  assumes "\<forall>c\<in>set cs. take 5 (fst (get_8k_filings w (row_cik_str c))) =
             map (\<lambda>(d, s). (d, JStr s)) (refs c)"
  shows "fst (process_companies w cs df) = None \<and>
         analyzed (snd (snd (process_companies w cs df))) =
           concat (map (\<lambda>c. map fst (take 5 (fst (get_8k_filings w (row_cik_str c))))) cs) \<and>
         fetched (snd (snd (process_companies w cs df))) =
           concat (map (\<lambda>c. search_url (row_cik_str c) #
                            map (\<lambda>(d, s). filing_url s (row_cik_str c)) (refs c)) cs) \<and>
         prompted (snd (snd (process_companies w cs df))) =
           concat (map (\<lambda>c. concat (map (\<lambda>(d, s). document_prompt w c s) (refs c))) cs) \<and>
         paused (snd (snd (process_companies w cs df))) =
           concat (map (\<lambda>c. map (\<lambda>ref. 1) (refs c)) cs) \<and>
         (\<forall>c\<in>set cs.
            (length (fst (get_8k_filings w (row_cik_str c))) > 5 \<longrightarrow> length (refs c) = 5) \<and>
            (length (fst (get_8k_filings w (row_cik_str c))) \<le> 5 \<longrightarrow>
               fst (get_8k_filings w (row_cik_str c)) = map (\<lambda>(d, s). (d, JStr s)) (refs c)))"
proof -
  obtain df' ev where run: "process_companies w cs df = (None, df', ev)"
    and a: "analyzed ev = concat (map (\<lambda>c. map fst (refs c)) cs)"
    and f: "fetched ev = concat (map (\<lambda>c. search_url (row_cik_str c) #
                    map (\<lambda>(d, s). filing_url s (row_cik_str c)) (refs c)) cs)"
    and p: "prompted ev =
              concat (map (\<lambda>c. concat (map (\<lambda>(d, s). document_prompt w c s) (refs c))) cs)"
    and z: "paused ev = concat (map (\<lambda>c. map (\<lambda>ref. 1) (refs c)) cs)"
    using companies_run [OF assms, of df] by blast
  have dates: "map (\<lambda>c. map fst (refs c)) cs =
               map (\<lambda>c. map fst (take 5 (fst (get_8k_filings w (row_cik_str c))))) cs"
  proof (rule map_cong [OF refl])
    fix c assume "c \<in> set cs"
    with assms have "take 5 (fst (get_8k_filings w (row_cik_str c))) =
        map (\<lambda>(d, s). (d, JStr s)) (refs c)" by blast
    then show "map fst (refs c) = map fst (take 5 (fst (get_8k_filings w (row_cik_str c))))"
      by (simp add: comp_def case_prod_beta)
  qed
  have count: "\<forall>c\<in>set cs.
            (length (fst (get_8k_filings w (row_cik_str c))) > 5 \<longrightarrow> length (refs c) = 5) \<and>
            (length (fst (get_8k_filings w (row_cik_str c))) \<le> 5 \<longrightarrow>
               fst (get_8k_filings w (row_cik_str c)) = map (\<lambda>(d, s). (d, JStr s)) (refs c))"
  proof
    fix c assume "c \<in> set cs"
    with assms have t: "take 5 (fst (get_8k_filings w (row_cik_str c))) =
        map (\<lambda>(d, s). (d, JStr s)) (refs c)" by blast
    then have "length (refs c) = min (length (fst (get_8k_filings w (row_cik_str c)))) 5"
      by (metis length_map length_take)
    with t show "(length (fst (get_8k_filings w (row_cik_str c))) > 5 \<longrightarrow> length (refs c) = 5) \<and>
            (length (fst (get_8k_filings w (row_cik_str c))) \<le> 5 \<longrightarrow>
               fst (get_8k_filings w (row_cik_str c)) = map (\<lambda>(d, s). (d, JStr s)) (refs c))"
      by auto
  qed
  show ?thesis
    unfolding run using a f p z dates count by simp
qed

theorem cap_enforcement_witness:
  "length (fst (get_8k_filings
             (fixed_world (Inr (index_json eight_forms eight_dates eight_accessions)) reply_name_only)
             (row_cik_str apple))) = 7 \<and>
   fst (process_companies
          (fixed_world (Inr (index_json eight_forms eight_dates eight_accessions)) reply_name_only)
          [apple, apple] []) = None \<and>
   analyzed (snd (snd (process_companies
      (fixed_world (Inr (index_json eight_forms eight_dates eight_accessions)) reply_name_only)
      [apple, apple] []))) =
     [JStr (ascii ''2024-08-01''), JStr (ascii ''2024-07-01''), JStr (ascii ''2024-06-01''),
      JStr (ascii ''2024-05-01''), JStr (ascii ''2024-04-01''),
      JStr (ascii ''2024-08-01''), JStr (ascii ''2024-07-01''), JStr (ascii ''2024-06-01''),
      JStr (ascii ''2024-05-01''), JStr (ascii ''2024-04-01'')] \<and>
   prompted (snd (snd (process_companies
      (fixed_world (Inr (index_json eight_forms eight_dates eight_accessions)) reply_name_only)
      [apple, apple] []))) =
     replicate 10 (build_prompt (ascii ''Widget X launch'') (ascii ''Apple Inc.'') (ascii ''AAPL'')) \<and>
   paused (snd (snd (process_companies
      (fixed_world (Inr (index_json eight_forms eight_dates eight_accessions)) reply_name_only)
      [apple, apple] []))) = replicate 10 1"
proof -
  let ?w = "fixed_world (Inr (index_json eight_forms eight_dates eight_accessions)) reply_name_only"
  let ?refs = "[(JStr (ascii ''2024-08-01''), ascii ''0000320193-24-000008''),
                (JStr (ascii ''2024-07-01''), ascii ''0000320193-24-000007''),
                (JStr (ascii ''2024-06-01''), ascii ''0000320193-24-000005''),
                (JStr (ascii ''2024-05-01''), ascii ''0000320193-24-000004''),
                (JStr (ascii ''2024-04-01''), ascii ''0000320193-24-000003'')]"
  let ?filings = "map (\<lambda>(d, s). (d, JStr s)) ?refs @
                  [(JStr (ascii ''2024-03-01''), JStr (ascii ''0000320193-24-000002'')),
                   (JStr (ascii ''2024-02-01''), JInt 2400000001)]"
  have l: "length eight_dates = length eight_forms" "length eight_accessions = length eight_forms"
    by (simp_all add: eight_dates_def eight_forms_def eight_accessions_def)
  have f: "fst (get_8k_filings ?w (row_cik_str apple)) = ?filings"
    unfolding index_json_filings [OF l]
    by (simp add: eight_dates_def eight_forms_def eight_accessions_def form_8k_def ascii_def)
  have n: "length (fst (get_8k_filings ?w (row_cik_str apple))) = 7"
    unfolding f by simp
  have h: "\<forall>c\<in>set [apple, apple]. take 5 (fst (get_8k_filings ?w (row_cik_str c))) =
             map (\<lambda>(d, s). (d, JStr s)) ((\<lambda>c. ?refs) c)"
    unfolding set_simps by (simp add: f)
  note c = cap_enforcement [OF h, of "[]"]
  have 1: "fst (process_companies ?w [apple, apple] []) = None"
    using c by (rule conjunct1)
  have "analyzed (snd (snd (process_companies ?w [apple, apple] []))) =
      concat (map (\<lambda>c. map fst (take 5 (fst (get_8k_filings ?w (row_cik_str c))))) [apple, apple])"
    using c by (elim conjE)
  then have 2: "analyzed (snd (snd (process_companies ?w [apple, apple] []))) =
      map fst ?refs @ map fst ?refs"
    by (simp add: f)
  have "prompted (snd (snd (process_companies ?w [apple, apple] []))) =
      concat (map (\<lambda>c. concat (map (\<lambda>(d, s). document_prompt ?w c s) ((\<lambda>c. ?refs) c)))
         [apple, apple])"
    using c by (elim conjE)
  then have 3: "prompted (snd (snd (process_companies ?w [apple, apple] []))) =
      replicate 10 (build_prompt (ascii ''Widget X launch'') (ascii ''Apple Inc.'') (ascii ''AAPL''))"
    by (simp add: fixed_prompt apple_def eval_nat_numeral)
  have "paused (snd (snd (process_companies ?w [apple, apple] []))) =
      concat (map (\<lambda>c. map (\<lambda>ref. 1) ((\<lambda>c. ?refs) c)) [apple, apple])"
    using c by (elim conjE)
  then have 4: "paused (snd (snd (process_companies ?w [apple, apple] []))) = replicate 10 1"
    by (simp add: eval_nat_numeral)
  show ?thesis
    using n 1 2 3 4 by simp
qed

text \<open>
  Claim C8. The result table after a run over the companies \<open>cs\<close>, started on the
  table \<open>df\<close>, is \<open>df\<close> followed, in discovery order, by one row for exactly
  those (company, filing) pairs the run reaches whose extraction gives a record, and a
  record always has a non-empty product name. The table of a run is a prefix of the
  table of any longer run: rows are appended, never changed or removed.
\<close>

theorem result_rows:
  "fst (snd (process_companies w cs df)) =
     df @ concat (map (\<lambda>(c, filing_date, accession_number).
                        case extraction_for w (c, filing_date, accession_number) of
                          None \<Rightarrow> []
                        | Some p \<Rightarrow> [new_row c filing_date p])
                      (takeWhile readable (selected w cs))) \<and>
   (\<forall>x p. extraction_for w x = Some p \<longrightarrow> new_product p \<noteq> []) \<and>
   prefix (fst (snd (process_companies w cs df)))
          (fst (snd (process_companies w (cs @ cs') df)))"
proof (intro conjI)
  have "rows_for w = (\<lambda>(c, filing_date, accession_number).
                        case extraction_for w (c, filing_date, accession_number) of
                          None \<Rightarrow> []
                        | Some p \<Rightarrow> [new_row c filing_date p])"
    by (simp add: rows_for_def)
  then show "fst (snd (process_companies w cs df)) =
     df @ concat (map (\<lambda>(c, filing_date, accession_number).
                        case extraction_for w (c, filing_date, accession_number) of
                          None \<Rightarrow> []
                        | Some p \<Rightarrow> [new_row c filing_date p])
                      (takeWhile readable (selected w cs)))"
    using companies_rows [of w cs df] by simp
next
  show "\<forall>x p. extraction_for w x = Some p \<longrightarrow> new_product p \<noteq> []"
    using extraction_name by blast
next
  obtain zs where "takeWhile readable (selected w (cs @ cs')) =
      takeWhile readable (selected w cs) @ zs"
    using takeWhile_prefix_append [of readable "selected w cs" "selected w cs'"]
    unfolding selected_append by (auto simp: prefix_def)
  then show "prefix (fst (snd (process_companies w cs df)))
          (fst (snd (process_companies w (cs @ cs') df)))"
    unfolding companies_rows by simp
qed

theorem result_rows_witness:
  "fst (snd (process_companies
      (fixed_world (Inr (index_json three_forms three_dates three_accessions)) reply_name_only)
      [apple] [])) =
     [\<lparr>col_company_name = ascii ''Apple Inc.'', col_stock_name = ascii ''AAPL'',
       col_filing_time = JStr (ascii ''2024-05-02''), col_new_product = ascii ''Vision Pro 2'',
       col_product_description = []\<rparr>,
      \<lparr>col_company_name = ascii ''Apple Inc.'', col_stock_name = ascii ''AAPL'',
       col_filing_time = JStr (ascii ''2024-02-01''), col_new_product = ascii ''Vision Pro 2'',
       col_product_description = []\<rparr>]"
proof -
  let ?w = "fixed_world (Inr (index_json three_forms three_dates three_accessions)) reply_name_only"
  have l: "length three_dates = length three_forms" "length three_accessions = length three_forms"
    by (simp_all add: three_dates_def three_forms_def three_accessions_def)
  have f: "fst (get_8k_filings ?w (row_cik_str apple)) =
             [(JStr (ascii ''2024-05-02''), JStr (ascii ''0000320193-24-000069'')),
              (JStr (ascii ''2024-02-01''), JStr (ascii ''0000320193-24-000005''))]"
    unfolding index_json_filings [OF l]
    by (simp add: three_dates_def three_forms_def three_accessions_def form_8k_def ascii_def)
  have s: "takeWhile readable (selected ?w [apple]) =
             [(apple, JStr (ascii ''2024-05-02''), JStr (ascii ''0000320193-24-000069'')),
              (apple, JStr (ascii ''2024-02-01''), JStr (ascii ''0000320193-24-000005''))]"
    by (simp add: selected_def f readable_def)
  have "fst (snd (process_companies ?w [apple] [])) =
     [] @ concat (map (\<lambda>(c, filing_date, accession_number).
                        case extraction_for ?w (c, filing_date, accession_number) of
                          None \<Rightarrow> []
                        | Some p \<Rightarrow> [new_row c filing_date p])
                      (takeWhile readable (selected ?w [apple])))"
    using result_rows [of ?w "[apple]" "[]" "[]"] by (rule conjunct1)
  also have "\<dots> =
     [new_row apple (JStr (ascii ''2024-05-02''))
        \<lparr>new_product = ascii ''Vision Pro 2'', product_description = []\<rparr>,
      new_row apple (JStr (ascii ''2024-02-01''))
        \<lparr>new_product = ascii ''Vision Pro 2'', product_description = []\<rparr>]"
    unfolding s by (simp add: fixed_extraction parse_name_only)
  finally show ?thesis
    by (simp add: new_row_def apple_def)
qed

section \<open>The markup-to-text normalization\<close>

lemma str_replace_match:
  assumes "prefix (a # as) (c # cs)"
  shows "str_replace (a # as) new (c # cs) = new @ str_replace (a # as) new (drop (length as) cs)"
  by (simp only: str_replace.simps assms if_True)

lemma str_replace_skip:
  assumes "\<not> prefix (a # as) (c # cs)"
  shows "str_replace (a # as) new (c # cs) = c # str_replace (a # as) new cs"
  by (simp only: str_replace.simps assms if_False)

lemma str_replace_char:
  "str_replace [a] [b] s = map (\<lambda>c. if c = a then b else c) s"
  by (induction s) auto

lemma box_replace_match:
  "str_replace [32, 9744, 32] [32] (32 # 9744 # 32 # rest) =
     32 # str_replace [32, 9744, 32] [32] rest"
  by simp

lemma box_prefix:
  "prefix [32, 9744, 32] (c # cs) \<longleftrightarrow> c = 32 \<and> (\<exists>rest. cs = 9744 # 32 # rest)"
  by (auto simp: prefix_def)

lemma whitespace_chain:
  "str_replace [8195] [32] (str_replace [8194] [32] (str_replace [8201] [32]
     (str_replace [160] [32] s))) = map to_space s"
  by (simp add: str_replace_char to_space_def)

lemma extract_section_eq:
  "extract_section w html = str_replace [32, 9744, 32] [32] (map to_space (soup_get_text w html))"
  by (simp add: extract_section_def whitespace_chain Let_def)

lemma box_replace_set: "set (str_replace [32, 9744, 32] [32] s) \<subseteq> set s"
proof (induction s rule: measure_induct_rule [where f = length])
  case (less s)
  let ?R = "str_replace [32, 9744, 32] [32]"
  show ?case
  proof (cases s)
    case Nil
    then show ?thesis by simp
  next
    case (Cons c cs)
    show ?thesis
    proof (cases "prefix [32, 9744, 32] (c # cs)")
      case True
      then obtain rest where c: "c = 32" and cs: "cs = 9744 # 32 # rest"
        unfolding box_prefix by blast
      have s: "s = 32 # 9744 # 32 # rest" using Cons c cs by simp
      have "set (?R rest) \<subseteq> set rest" using less [of rest] s by simp
      then show ?thesis unfolding s box_replace_match by auto
    next
      case False
      have "set (?R cs) \<subseteq> set cs" using less [of cs] Cons by simp
      then show ?thesis unfolding Cons str_replace_skip [OF False] by auto
    qed
  qed
qed

lemma box_replace_head:
  assumes "str_replace [32, 9744, 32] [32] s = x # ys"
  shows "\<exists>s'. s = x # s' \<and> (x \<noteq> 32 \<longrightarrow> ys = str_replace [32, 9744, 32] [32] s')"
proof (cases s)
  case Nil
  with assms show ?thesis by simp
next
  case (Cons c cs)
  show ?thesis
  proof (cases "prefix [32, 9744, 32] (c # cs)")
    case True
    then obtain rest where c: "c = 32" and cs: "cs = 9744 # 32 # rest"
      unfolding box_prefix by blast
    have s: "s = 32 # 9744 # 32 # rest" using Cons c cs by simp
    from assms have "x = 32" unfolding s box_replace_match by simp
    then show ?thesis using s by simp
  next
    case False
    from assms have "c # str_replace [32, 9744, 32] [32] cs = x # ys"
      unfolding Cons str_replace_skip [OF False] .
    then show ?thesis using Cons by simp
  qed
qed

lemma str_contains_drop: "str_contains p (drop n s) \<Longrightarrow> str_contains p s"
proof -
  assume "str_contains p (drop n s)"
  then obtain pre post where "drop n s = pre @ p @ post"
    unfolding str_contains_iff by blast
  then have "s = (take n s @ pre) @ p @ post"
    by (metis append_take_drop_id append.assoc)
  then show ?thesis unfolding str_contains_iff by blast
qed

lemma str_contains_tail: "str_contains p cs \<Longrightarrow> str_contains p (c # cs)"
  by (simp add: str_contains_Cons)

lemma box_replace_clean:
  "\<not> str_contains [9744, 32, 9744] s \<Longrightarrow>
   \<not> str_contains [32, 9744, 32] (str_replace [32, 9744, 32] [32] s)"
proof (induction s rule: measure_induct_rule [where f = length])
  case (less s)
  let ?R = "str_replace [32, 9744, 32] [32]"
  show ?case
  proof (cases s)
    case Nil
    then show ?thesis by (simp add: str_contains_Nil)
  next
    case (Cons c cs)
    show ?thesis
    proof (cases "prefix [32, 9744, 32] (c # cs)")
      case True
      then obtain rest where c: "c = 32" and cs: "cs = 9744 # 32 # rest"
        unfolding box_prefix by blast
      have s: "s = 32 # 9744 # 32 # rest" using Cons c cs by simp
      have out: "?R s = 32 # ?R rest" unfolding s by (rule box_replace_match)
      have "drop 3 s = rest" unfolding s by simp
      then have "\<not> str_contains [9744, 32, 9744] rest"
        using less.prems str_contains_drop [of "[9744, 32, 9744]" 3 s] by auto
      moreover have "length rest < length s" unfolding s by simp
      ultimately have ih: "\<not> str_contains [32, 9744, 32] (?R rest)"
        by (rule less.IH [rotated])
      have "\<not> prefix [32, 9744, 32] (32 # ?R rest)"
      proof
        assume "prefix [32, 9744, 32] (32 # ?R rest)"
        then obtain zs where "?R rest = 9744 # 32 # zs" unfolding box_prefix by blast
        then obtain r' where "rest = 9744 # r'" using box_replace_head by blast
        then have "s = [32] @ [9744, 32, 9744] @ r'" using s by simp
        then have "str_contains [9744, 32, 9744] s" unfolding str_contains_iff by blast
        with less.prems show False by simp
      qed
      with ih show ?thesis unfolding out str_contains_Cons by blast
    next
      case False
      have out: "?R s = c # ?R cs" unfolding Cons by (rule str_replace_skip [OF False])
      have "\<not> str_contains [9744, 32, 9744] cs"
        using less.prems Cons str_contains_tail by blast
      moreover have "length cs < length s" using Cons by simp
      ultimately have ih: "\<not> str_contains [32, 9744, 32] (?R cs)"
        by (rule less.IH [rotated])
      have "\<not> prefix [32, 9744, 32] (c # ?R cs)"
      proof
        assume "prefix [32, 9744, 32] (c # ?R cs)"
        then obtain zs where c: "c = 32" and r: "?R cs = 9744 # 32 # zs"
          unfolding box_prefix by blast
        from box_replace_head [OF r] obtain s' where s': "cs = 9744 # s'"
          and r': "32 # zs = ?R s'" by auto
        from box_replace_head [OF r' [symmetric]] obtain s'' where "s' = 32 # s''" by blast
        with s' c have "prefix [32, 9744, 32] (c # cs)" unfolding box_prefix by blast
        with False show False by simp
      qed
      with ih show ?thesis unfolding out str_contains_Cons by blast
    qed
  qed
qed

lemma str_replace_absent:
  "\<not> str_contains (a # as) s \<Longrightarrow> str_replace (a # as) new s = s"
proof (induction s)
  case Nil
  show ?case by simp
next
  case (Cons c cs)
  from Cons.prems have n: "\<not> prefix (a # as) (c # cs)" and t: "\<not> str_contains (a # as) cs"
    unfolding str_contains_Cons by blast+
  from t have "str_replace (a # as) new cs = cs" by (rule Cons.IH)
  then show ?case unfolding str_replace_skip [OF n] by simp
qed

lemma map_to_space_fixed:
  "set s \<inter> {160, 8201, 8194, 8195} = {} \<Longrightarrow> map to_space s = s"
  by (induction s) (auto simp: to_space_def)

lemma set_map_to_space: "set (map to_space s) \<inter> {160, 8201, 8194, 8195} = {}"
  by (auto simp: to_space_def)

lemma box_in_mapped:
  assumes "str_contains [9744, 32, 9744] (map to_space t)"
  shows "\<exists>sp\<in>{32, 160, 8201, 8194, 8195}. str_contains [9744, sp, 9744] t"
proof -
  from assms obtain pre post where "map to_space t = pre @ [9744, 32, 9744] @ post"
    unfolding str_contains_iff by blast
  then obtain us a b c zs where t: "t = us @ a # b # c # zs"
    and "to_space a = 9744" "to_space b = 32" "to_space c = 9744"
    by (auto simp: map_eq_append_conv map_eq_Cons_conv)
  then have "a = 9744" "c = 9744" "b \<in> {32, 160, 8201, 8194, 8195}"
    by (auto simp: to_space_def split: if_splits)
  with t have "t = us @ [9744, b, 9744] @ zs" "b \<in> {32, 160, 8201, 8194, 8195}"
    by simp_all
  then show ?thesis unfolding str_contains_iff by blast
qed

text \<open>
  Claim C9, as the claim states it, fails. The checkbox replacement is one pass from
  the left over non-overlapping occurrences: of two checkbox glyphs that share a
  space it removes the first only, and a second application removes the other.
\<close>

theorem second_pass_changes_text:
  "extract_section (reply_world []) [97, 32, 9744, 32, 9744, 32, 98] = [97, 32, 9744, 32, 98] \<and>
   extract_section (reply_world []) [97, 32, 9744, 32, 98] = [97, 32, 98]"
  by (simp add: extract_section_def reply_world_def strip_def isspace_def)

text \<open>
  Claim C9, amended. A second application of the normalization gives the text of
  the first whenever the markup parser returns the once-normalized text unchanged
  and the parsed text of the input holds no two checkbox glyphs separated by a single
  space or by one of the four replaced whitespace glyphs.
\<close>

theorem normalization_idempotent:
  assumes parser: "soup_get_text w (extract_section w html) = extract_section w html"
      and boxes: "\<forall>sp\<in>{32, 160, 8201, 8194, 8195}.
                    \<not> str_contains [9744, sp, 9744] (soup_get_text w html)"
  shows "extract_section w (extract_section w html) = extract_section w html"
proof -
  let ?R = "str_replace [32, 9744, 32] [32]"
  let ?y = "map to_space (soup_get_text w html)"
  have e: "extract_section w html = ?R ?y" by (rule extract_section_eq)
  have "set (?R ?y) \<subseteq> set ?y" by (rule box_replace_set)
  with set_map_to_space [of "soup_get_text w html"]
  have "set (?R ?y) \<inter> {160, 8201, 8194, 8195} = {}" by blast
  then have m: "map to_space (?R ?y) = ?R ?y" by (rule map_to_space_fixed)
  have "\<not> str_contains [9744, 32, 9744] ?y"
    using boxes box_in_mapped [of "soup_get_text w html"] by blast
  then have "\<not> str_contains [32, 9744, 32] (?R ?y)" by (rule box_replace_clean)
  then have r: "?R (?R ?y) = ?R ?y" by (rule str_replace_absent)
  have "extract_section w (extract_section w html) =
          ?R (map to_space (soup_get_text w (extract_section w html)))"
    by (rule extract_section_eq)
  also have "\<dots> = ?R (map to_space (?R ?y))" using parser e by simp
  also have "\<dots> = ?R ?y" using m r by simp
  finally show ?thesis using e by simp
qed

theorem normalization_idempotent_witness:
  "extract_section (reply_world []) (extract_section (reply_world []) [32, 97, 160, 9744, 8201, 98, 32]) =
     extract_section (reply_world []) [32, 97, 160, 9744, 8201, 98, 32] \<and>
   extract_section (reply_world []) [32, 97, 160, 9744, 8201, 98, 32] = [97, 32, 98]"
proof -
  let ?w = "reply_world []"
  let ?x = "[32, 97, 160, 9744, 8201, 98, 32] :: pystr"
  have v: "extract_section ?w ?x = [97, 32, 98]"
    by (simp add: extract_section_def reply_world_def strip_def isspace_def)
  have p: "soup_get_text ?w (extract_section ?w ?x) = extract_section ?w ?x"
    unfolding v by (simp add: reply_world_def strip_def isspace_def)
  have g: "soup_get_text ?w ?x = [97, 160, 9744, 8201, 98]"
    by (simp add: reply_world_def strip_def isspace_def)
  have b: "\<forall>sp\<in>{32, 160, 8201, 8194, 8195}.
             \<not> str_contains [9744, sp, 9744] (soup_get_text ?w ?x)"
    unfolding g by (simp add: str_contains_def)
  show ?thesis
    using normalization_idempotent [OF p b] v by simp
qed

end
